theory Spec2Isabelle
  imports Main "HOL-Library.Char_ord" "HOL-Library.List_Lexorder"
begin

section \<open>Python text primitives used by both tools\<close>

text \<open>
  A Python \<open>str\<close> is modelled as a \<open>string\<close> whose characters are the code points
  below 256, one \<open>char\<close> per Python character, so lengths, comparisons and
  the character classes below are those of Python on such text. Integers are
  unbounded, as Python's are; the interpreter's cap on the digit count of
  \<open>int()\<close> and \<open>str()\<close> conversions is outside the model.
\<close>

definition ord :: "char \<Rightarrow> nat" where
  "ord c = of_char c"

text \<open>\<open>str.isspace\<close> on one character: TAB, LF, VT, FF, CR, FS, GS, RS, US, space,
  NEL and the no-break space.\<close>

definition isspace :: "char \<Rightarrow> bool" where
  "isspace c = (ord c \<in> set [9, 10, 11, 12, 13, 28, 29, 30, 31, 32, 133, 160])"

text \<open>The line boundaries of \<open>str.splitlines\<close>: LF, VT, FF, CR, FS, GS, RS, NEL
  (and CR LF as one boundary).\<close>

definition is_linebreak :: "char \<Rightarrow> bool" where
  "is_linebreak c = (ord c \<in> set [10, 11, 12, 13, 28, 29, 30, 133])"

definition isdigit :: "char \<Rightarrow> bool" where
  "isdigit c = (48 \<le> ord c \<and> ord c \<le> 57)"

definition digit_val :: "char \<Rightarrow> nat" where
  "digit_val c = ord c - 48"

definition digit_char :: "nat \<Rightarrow> char" where
  "digit_char d = char_of (48 + d)"

text \<open>\<open>s.split()\<close>: the maximal runs of non-whitespace characters, in order.
  The first argument is the token being read.\<close>

fun split_acc :: "string \<Rightarrow> string \<Rightarrow> string list" where
  "split_acc cur [] = (if cur = [] then [] else [cur])"
| "split_acc cur (c # cs) =
     (if isspace c then (if cur = [] then split_acc [] cs else cur # split_acc [] cs)
      else split_acc (cur @ [c]) cs)"

definition split :: "string \<Rightarrow> string list" where
  "split s = split_acc [] s"

text \<open>\<open>s.strip()\<close> and \<open>s.rstrip('\n')\<close>.\<close>

definition strip :: "string \<Rightarrow> string" where
  "strip s = rev (dropWhile isspace (rev (dropWhile isspace s)))"

definition rstrip_nl :: "string \<Rightarrow> string" where
  "rstrip_nl s = rev (dropWhile (\<lambda>c. c = CHR 0x0A) (rev s))"

text \<open>\<open>s.splitlines()\<close>: the lines without their terminators; no empty last
  line after a final terminator.\<close>

fun splitlines_acc :: "string \<Rightarrow> string \<Rightarrow> string list" where
  "splitlines_acc cur [] = (if cur = [] then [] else [cur])"
| "splitlines_acc cur [c] = (if is_linebreak c then [cur] else [cur @ [c]])"
| "splitlines_acc cur (c # d # ds) =
     (if c = CHR 0x0D \<and> d = CHR 0x0A then cur # splitlines_acc [] ds
      else if is_linebreak c then cur # splitlines_acc [] (d # ds)
      else splitlines_acc (cur @ [c]) (d # ds))"

definition splitlines :: "string \<Rightarrow> string list" where
  "splitlines s = splitlines_acc [] s"

text \<open>\<open>sep.join(xs)\<close>.\<close>

fun join :: "string \<Rightarrow> string list \<Rightarrow> string" where
  "join sep [] = []"
| "join sep [x] = x"
| "join sep (x # y # ys) = x @ sep @ join sep (y # ys)"

text \<open>\<open>str(n)\<close> for an integer: decimal digits, most significant first, with a
  minus sign for a negative one.\<close>

fun str_nat :: "nat \<Rightarrow> string" where
  "str_nat n = (if n < 10 then [digit_char n] else str_nat (n div 10) @ [digit_char (n mod 10)])"

declare str_nat.simps [simp del]

definition str :: "int \<Rightarrow> string" where
  "str i = (if i < 0 then CHR ''-'' # str_nat (nat (- i)) else str_nat (nat i))"

text \<open>\<open>int(s)\<close> on a string, base 10: surrounding whitespace is ignored, then an
  optional sign, then decimal digits, where single underscores may stand between
  digits. \<open>None\<close> is the \<open>ValueError\<close>.\<close>

fun parse_digits :: "nat \<Rightarrow> string \<Rightarrow> nat option" where
  "parse_digits acc [] = Some acc"
| "parse_digits acc [c] = (if isdigit c then Some (10 * acc + digit_val c) else None)"
| "parse_digits acc (c # d # ds) =
     (if isdigit c then parse_digits (10 * acc + digit_val c) (d # ds)
      else if c = CHR ''_'' \<and> isdigit d then parse_digits (10 * acc + digit_val d) ds
      else None)"

definition parse_unsigned :: "string \<Rightarrow> nat option" where
  "parse_unsigned s =
     (case s of [] \<Rightarrow> None
      | c # cs \<Rightarrow> if isdigit c then parse_digits (digit_val c) cs else None)"

definition py_int :: "string \<Rightarrow> int option" where
  "py_int s =
     (case strip s of
        [] \<Rightarrow> None
      | c # cs \<Rightarrow>
          if c = CHR ''-'' then map_option (\<lambda>n. - int n) (parse_unsigned cs)
          else if c = CHR ''+'' then map_option int (parse_unsigned cs)
          else map_option int (parse_unsigned (c # cs)))"

section \<open>The label remapper (Remap.py)\<close>

subsection \<open>The two dictionaries\<close>

text \<open>\<open>{i: n for i, n in enumerate(old)}\<close> and
  \<open>{name: idx for idx, name in enumerate(new)}\<close>: the entries are stored in list
  order, a later one replacing an earlier one with the same key.\<close>

definition old_index_to_name :: "string list \<Rightarrow> int \<rightharpoonup> string" where
  "old_index_to_name old = fold (\<lambda>(i, n) m. m(int i \<mapsto> n)) (enumerate 0 old) Map.empty"

definition name_to_new :: "string list \<Rightarrow> string \<rightharpoonup> int" where
  "name_to_new new = fold (\<lambda>(idx, name) m. m(name \<mapsto> int idx)) (enumerate 0 new) Map.empty"

subsection \<open>One line\<close>

text \<open>The body of the inner loop of \<open>remap_by_name\<close> for a non-blank line \<open>ln\<close>:
  the line appended to \<open>out_lines\<close>, and whether \<open>changed\<close> (rather than
  \<open>unchanged\<close>) is incremented.\<close>

definition remap_line :: "string list \<Rightarrow> string list \<Rightarrow> string \<Rightarrow> string \<times> bool" where
  "remap_line old new ln =
     (let parts = split ln in
      if length parts < 5 then (ln, False)
      else
        (case py_int (hd parts) of
           None \<Rightarrow> (ln, False)
         | Some old_idx \<Rightarrow>
             (case old_index_to_name old old_idx of
                None \<Rightarrow> (ln, False)
              | Some old_name \<Rightarrow>
                  (case name_to_new new old_name of
                     None \<Rightarrow> (ln, False)
                   | Some new_idx \<Rightarrow>
                       (let new_line = join '' '' (str new_idx # tl parts)
                        in (new_line, new_line \<noteq> ln))))))"

text \<open>The notions the properties of a line are stated with: a position of the
  new list that holds a name and is followed by no other occurrence of it, and
  the validity conditions of a label line (at least five tokens, a first token
  that parses as a position of the old list, whose name occurs in the new list).\<close>

definition is_last_index :: "string list \<Rightarrow> string \<Rightarrow> nat \<Rightarrow> bool" where
  "is_last_index new nm q = (q < length new \<and> new ! q = nm \<and> nm \<notin> set (drop (Suc q) new))"

definition valid_line :: "string list \<Rightarrow> string list \<Rightarrow> string \<Rightarrow> bool" where
  "valid_line old new ln =
     (5 \<le> length (split ln) \<and>
      (case py_int (hd (split ln)) of
         None \<Rightarrow> False
       | Some i \<Rightarrow> 0 \<le> i \<and> i < int (length old) \<and> old ! nat i \<in> set new))"

record stats =
  files :: nat
  lines :: nat
  changed :: nat
  unchanged :: nat

text \<open>One iteration of \<open>for raw in content.splitlines()\<close>, on the pair of
  \<open>out_lines\<close> and \<open>stats\<close>: a blank line is skipped and not counted.\<close>

definition process_raw ::
  "string list \<Rightarrow> string list \<Rightarrow> string list \<times> stats \<Rightarrow> string \<Rightarrow> string list \<times> stats" where
  "process_raw old new acc raw =
     (let (out_lines, st) = acc; ln = rstrip_nl raw in
      if strip ln = [] then (out_lines, st)
      else
        (let st1 = st\<lparr>lines := lines st + 1\<rparr>; (l, ch) = remap_line old new ln in
         (out_lines @ [l],
          if ch then st1\<lparr>changed := changed st1 + 1\<rparr>
          else st1\<lparr>unchanged := unchanged st1 + 1\<rparr>)))"

text \<open>The inner loop over one file's text, and the text written for it:
  \<open>'\n'.join(out_lines) + ('\n' if out_lines else '')\<close>.\<close>

definition process_content ::
  "string list \<Rightarrow> string list \<Rightarrow> stats \<Rightarrow> string \<Rightarrow> string list \<times> stats" where
  "process_content old new st content = foldl (process_raw old new) ([], st) (splitlines content)"

definition out_text :: "string list \<Rightarrow> string" where
  "out_text out_lines = join [CHR 0x0A] out_lines @ (if out_lines \<noteq> [] then [CHR 0x0A] else [])"

subsection \<open>Files and directories\<close>

text \<open>
  A path is the list of its components from the root, and the file system is an
  association list from paths to nodes, read through \<open>lookup\<close> (the first entry
  for a path counts; the root is a directory). A file holds its text as decoded
  from UTF-8. File systems are taken to be well formed: the parent of an entry
  is a directory. Log messages are not modelled.
\<close>

type_synonym path = "string list"

datatype node = Dir | File string

type_synonym fs = "(path \<times> node) list"

datatype error =
    LabelsFolderNotFound
  | FileNotFoundError path
  | IsADirectoryError path
  | FileExistsError path
  | NotADirectoryError path

definition lookup :: "fs \<Rightarrow> path \<Rightarrow> node option" where
  "lookup fs p = (if p = [] then Some Dir else map_of fs p)"

definition exists :: "fs \<Rightarrow> path \<Rightarrow> bool" where
  "exists fs p = (lookup fs p \<noteq> None)"

definition is_dir :: "fs \<Rightarrow> path \<Rightarrow> bool" where
  "is_dir fs p = (lookup fs p = Some Dir)"

definition is_file :: "fs \<Rightarrow> path \<Rightarrow> bool" where
  "is_file fs p = (case lookup fs p of Some (File _) \<Rightarrow> True | _ \<Rightarrow> False)"

definition fs_put :: "fs \<Rightarrow> path \<Rightarrow> node \<Rightarrow> fs" where
  "fs_put fs p n = (p, n) # filter (\<lambda>(q, _). q \<noteq> p) fs"

text \<open>\<open>Path.parent\<close>, \<open>Path.name\<close> and \<open>Path.suffix\<close> (the part of the name from
  its last dot, when that dot is neither the first nor the last character).\<close>

definition parent :: "path \<Rightarrow> path" where
  "parent p = butlast p"

definition name :: "path \<Rightarrow> string" where
  "name p = (if p = [] then [] else last p)"

definition suffix :: "string \<Rightarrow> string" where
  "suffix nm =
     (let stem = rev (drop 1 (dropWhile (\<lambda>c. c \<noteq> CHR ''.'') (rev nm)));
          ext = drop (length stem) nm
      in if CHR ''.'' \<in> set nm \<and> stem \<noteq> [] \<and> 1 < length ext then ext else [])"

text \<open>\<open>str.lower\<close> on code points below 256: the ASCII capitals and the Latin-1
  capitals (all but the multiplication sign) move up by 32.\<close>

definition lower_char :: "char \<Rightarrow> char" where
  "lower_char c =
     (let n = ord c in
      if (65 \<le> n \<and> n \<le> 90) \<or> (192 \<le> n \<and> n \<le> 222 \<and> n \<noteq> 215) then char_of (n + 32) else c)"

definition lower :: "string \<Rightarrow> string" where
  "lower s = map lower_char s"

text \<open>\<open>Path.iterdir\<close>: the entries directly inside a directory.\<close>

definition iterdir :: "fs \<Rightarrow> path \<Rightarrow> path list" where
  "iterdir fs d = remdups [p. (p, n) \<leftarrow> fs, p \<noteq> [] \<and> butlast p = d]"

text \<open>\<open>Path.mkdir(parents=True, exist_ok=True)\<close>: every missing directory on the
  way is created; a file in the way is an error.\<close>

fun mkdirs :: "fs \<Rightarrow> path \<Rightarrow> string list \<Rightarrow> error + fs" where
  "mkdirs fs pre [] = Inr fs"
| "mkdirs fs pre (c # cs) =
     (let p = pre @ [c] in
      case lookup fs p of
        Some (File _) \<Rightarrow> Inl (if cs = [] then FileExistsError p else NotADirectoryError p)
      | Some Dir \<Rightarrow> mkdirs fs p cs
      | None \<Rightarrow> mkdirs (fs_put fs p Dir) p cs)"

definition mkdir_parents :: "fs \<Rightarrow> path \<Rightarrow> error + fs" where
  "mkdir_parents fs p = mkdirs fs [] p"

text \<open>\<open>shutil.copytree(src, dst)\<close> for a destination that does not exist: the
  destination is created and everything below the source is copied below it.\<close>

definition below :: "path \<Rightarrow> path \<Rightarrow> bool" where
  "below d p = (length d < length p \<and> take (length d) p = d)"

definition copytree :: "fs \<Rightarrow> path \<Rightarrow> path \<Rightarrow> fs" where
  "copytree fs src dst =
     fold (\<lambda>p acc. case lookup fs p of
                      Some n \<Rightarrow> fs_put acc (dst @ drop (length src) p) n
                    | None \<Rightarrow> acc)
          (remdups [p. (p, n) \<leftarrow> fs, below src p])
          (fs_put fs dst Dir)"

text \<open>Reading in text mode translates CR LF and CR to LF.\<close>

fun universal_newlines :: "string \<Rightarrow> string" where
  "universal_newlines [] = []"
| "universal_newlines [c] = (if c = CHR 0x0D then [CHR 0x0A] else [c])"
| "universal_newlines (c # d # ds) =
     (if c = CHR 0x0D then
        (if d = CHR 0x0A then CHR 0x0A # universal_newlines ds
         else CHR 0x0A # universal_newlines (d # ds))
      else c # universal_newlines (d # ds))"

text \<open>\<open>f.readlines()\<close>: the lines with their terminating LF.\<close>

fun readlines_acc :: "string \<Rightarrow> string \<Rightarrow> string list" where
  "readlines_acc cur [] = (if cur = [] then [] else [cur])"
| "readlines_acc cur (c # cs) =
     (if c = CHR 0x0A then (cur @ [c]) # readlines_acc [] cs
      else readlines_acc (cur @ [c]) cs)"

definition readlines :: "string \<Rightarrow> string list" where
  "readlines s = readlines_acc [] s"

definition read_classes :: "fs \<Rightarrow> path \<Rightarrow> error + string list" where
  "read_classes fs p =
     (case lookup fs p of
        None \<Rightarrow> Inl (FileNotFoundError p)
      | Some Dir \<Rightarrow> Inl (IsADirectoryError p)
      | Some (File content) \<Rightarrow>
          Inr [rstrip_nl ln. ln \<leftarrow> readlines (universal_newlines content), rstrip_nl ln \<noteq> []])"

text \<open>\<open>Path.read_text\<close> of a path known to be a file, and \<open>Path.write_text\<close>,
  which creates or replaces a file and fails on a directory (the text is stored
  as written, as on POSIX).\<close>

definition read_text :: "fs \<Rightarrow> path \<Rightarrow> string" where
  "read_text fs p = (case lookup fs p of Some (File content) \<Rightarrow> universal_newlines content | _ \<Rightarrow> [])"

definition write_text :: "fs \<Rightarrow> path \<Rightarrow> string \<Rightarrow> error + fs" where
  "write_text fs p s =
     (case lookup fs p of
        Some Dir \<Rightarrow> Inl (IsADirectoryError p)
      | _ \<Rightarrow> Inr (fs_put fs p (File s)))"

subsection \<open>The engine\<close>

definition stats0 :: stats where
  "stats0 = \<lparr>files = 0, lines = 0, changed = 0, unchanged = 0\<rparr>"

text \<open>The loop \<open>for f in sorted(labels_dir.iterdir())\<close>. The listing is taken once,
  before the loop; each file is read when its turn comes.\<close>

fun remap_files ::
  "string list \<Rightarrow> string list \<Rightarrow> path \<Rightarrow> fs \<Rightarrow> stats \<Rightarrow> path list \<Rightarrow> fs \<times> (error + stats)" where
  "remap_files old new out_dir fs st [] = (fs, Inr st)"
| "remap_files old new out_dir fs st (f # rest) =
     (if \<not> is_file fs f \<or> lower (suffix (name f)) \<noteq> ''.txt''
      then remap_files old new out_dir fs st rest
      else
        (let st1 = st\<lparr>files := files st + 1\<rparr>;
             content = read_text fs f;
             (out_lines, st2) = process_content old new st1 content
         in case write_text fs (out_dir @ [name f]) (out_text out_lines) of
              Inl e \<Rightarrow> (fs, Inl e)
            | Inr fs' \<Rightarrow> remap_files old new out_dir fs' st2 rest))"

definition backup_path :: "path \<Rightarrow> path" where
  "backup_path labels_dir = parent labels_dir @ [name labels_dir @ ''_backup'']"

text \<open>Lines 54 to 98 of \<open>remap_by_name\<close>: the class lists are read, the label
  files are rewritten into the output directory, and the new class list is
  written beside them.\<close>

definition remap_from_classes ::
  "fs \<Rightarrow> path \<Rightarrow> path \<Rightarrow> path \<Rightarrow> path \<Rightarrow> fs \<times> (error + stats)" where
  "remap_from_classes fs2 labels_dir out_dir old_classes_path new_classes_path =
     (case read_classes fs2 old_classes_path of
        Inl e \<Rightarrow> (fs2, Inl e)
      | Inr old \<Rightarrow>
          (case read_classes fs2 new_classes_path of
             Inl e \<Rightarrow> (fs2, Inl e)
           | Inr new \<Rightarrow>
               (case remap_files old new out_dir fs2 stats0 (sort (iterdir fs2 labels_dir)) of
                  (fs3, Inl e) \<Rightarrow> (fs3, Inl e)
                | (fs3, Inr st) \<Rightarrow>
                    (case write_text fs3 (out_dir @ [''classes_mapped.txt''])
                            (join [CHR 0x0A] new @ [CHR 0x0A]) of
                       Inl e \<Rightarrow> (fs3, Inl e)
                     | Inr fs4 \<Rightarrow> (fs4, Inr st)))))"

text \<open>\<open>remap_by_name\<close>: the file system it leaves, and the statistics it returns
  or the exception it raises. Lines 42 to 52 come first: the check of the label
  directory, the output directory, the backup.\<close>

definition remap_by_name ::
  "fs \<Rightarrow> path \<Rightarrow> path \<Rightarrow> path \<Rightarrow> path \<Rightarrow> bool \<Rightarrow> fs \<times> (error + stats)" where
  "remap_by_name fs labels_dir out_dir old_classes_path new_classes_path create_backup =
     (if \<not> exists fs labels_dir \<or> \<not> is_dir fs labels_dir then (fs, Inl LabelsFolderNotFound)
      else
        (case mkdir_parents fs out_dir of
           Inl e \<Rightarrow> (fs, Inl e)
         | Inr fs1 \<Rightarrow>
             (let backup_dir = backup_path labels_dir;
                  fs2 = (if create_backup \<and> \<not> exists fs1 backup_dir
                         then copytree fs1 labels_dir backup_dir else fs1)
              in remap_from_classes fs2 labels_dir out_dir old_classes_path new_classes_path)))"

section \<open>The sequential renamer (rename.py)\<close>

text \<open>
  The renamer works on the same file system. A file name is one path component,
  so \<open>os.path.join(directory, f)\<close> is \<open>directory @ [f]\<close>; this is the code's
  behaviour for names (and a prefix) without a path separator. Access
  permissions are not modelled.
\<close>

definition image_extensions :: "string list" where
  "image_extensions =
     [''.jpg'', ''.jpeg'', ''.png'', ''.gif'', ''.bmp'', ''.tiff'', ''.webp'', ''.svg'']"

definition listdir :: "fs \<Rightarrow> path \<Rightarrow> string list" where
  "listdir fs d = map name (iterdir fs d)"

text \<open>\<open>s.zfill(width)\<close>: zeros are inserted on the left, after a leading sign.\<close>

definition zfill :: "nat \<Rightarrow> string \<Rightarrow> string" where
  "zfill width s =
     (case s of
        [] \<Rightarrow> replicate width CHR ''0''
      | c # cs \<Rightarrow>
          if c = CHR ''+'' \<or> c = CHR ''-'' then c # replicate (width - length s) CHR ''0'' @ cs
          else replicate (width - length s) CHR ''0'' @ s)"

text \<open>\<open>os.rename(src, dst)\<close> of a file: onto itself it does nothing, onto another
  file it replaces that file, onto a directory it fails.\<close>

definition os_rename :: "fs \<Rightarrow> path \<Rightarrow> path \<Rightarrow> error + fs" where
  "os_rename fs src dst =
     (case lookup fs src of
        None \<Rightarrow> Inl (FileNotFoundError src)
      | Some n \<Rightarrow>
          if src = dst then Inr fs
          else if is_dir fs dst then Inl (IsADirectoryError dst)
          else Inr (fs_put (filter (\<lambda>(q, _). q \<noteq> src) fs) dst n))"

text \<open>Lines 27 to 47 of \<open>rename_images\<close>: the files directly inside the directory
  whose lower-cased suffix is a supported one, sorted.\<close>

definition image_files :: "fs \<Rightarrow> path \<Rightarrow> string list" where
  "image_files fs directory =
     sort [file \<leftarrow> [f \<leftarrow> listdir fs directory. is_file fs (directory @ [f])].
             lower (suffix file) \<in> set image_extensions]"

definition error_text :: "error \<Rightarrow> string" where
  "error_text e =
     (case e of
        LabelsFolderNotFound \<Rightarrow> ''Labels folder not found''
      | FileNotFoundError _ \<Rightarrow> ''FileNotFoundError''
      | IsADirectoryError _ \<Rightarrow> ''IsADirectoryError''
      | FileExistsError _ \<Rightarrow> ''FileExistsError''
      | NotADirectoryError _ \<Rightarrow> ''NotADirectoryError'')"

definition path_text :: "path \<Rightarrow> string" where
  "path_text p = concat (map (\<lambda>c. CHR ''/'' # c) p)"

text \<open>The loop \<open>for i, old_filename in enumerate(image_files)\<close>, on the file system,
  \<open>renamed_count\<close> and the lines printed so far.\<close>

fun rename_loop ::
  "path \<Rightarrow> int \<Rightarrow> string \<Rightarrow> bool \<Rightarrow> nat \<Rightarrow> fs \<Rightarrow> nat \<Rightarrow> string list \<Rightarrow> (nat \<times> string) list
     \<Rightarrow> fs \<times> nat \<times> string list" where
  "rename_loop directory start_number prefix dry_run padding fs renamed_count out [] =
     (fs, renamed_count, out)"
| "rename_loop directory start_number prefix dry_run padding fs renamed_count out
       ((i, old_filename) # rest) =
     (let number = start_number + int i;
          new_number = zfill padding (str number);
          file_ext = suffix old_filename;
          new_filename = prefix @ ''_'' @ new_number @ file_ext;
          old_path = directory @ [old_filename];
          new_path = directory @ [new_filename]
      in if exists fs new_path \<and> old_path \<noteq> new_path then
           rename_loop directory start_number prefix dry_run padding fs renamed_count
             (out @ [''Warning: '' @ [CHR 0x27] @ new_filename @ [CHR 0x27]
                     @ '' already exists. Skipping '' @ [CHR 0x27] @ old_filename @ [CHR 0x27]])
             rest
         else if dry_run then
           rename_loop directory start_number prefix dry_run padding fs renamed_count
             (out @ [''Would rename: '' @ [CHR 0x27] @ old_filename @ [CHR 0x27] @ '' -> ''
                     @ [CHR 0x27] @ new_filename @ [CHR 0x27]])
             rest
         else
           (case os_rename fs old_path new_path of
              Inr fs' \<Rightarrow>
                rename_loop directory start_number prefix dry_run padding fs' (renamed_count + 1)
                  (out @ [''Renamed: '' @ [CHR 0x27] @ old_filename @ [CHR 0x27] @ '' -> ''
                          @ [CHR 0x27] @ new_filename @ [CHR 0x27]])
                  rest
            | Inl e \<Rightarrow>
                rename_loop directory start_number prefix dry_run padding fs renamed_count
                  (out @ [''Error renaming '' @ [CHR 0x27] @ old_filename @ [CHR 0x27] @ '': ''
                          @ error_text e])
                  rest))"

text \<open>\<open>rename_images\<close>: the file system it leaves and the lines it prints; listing
  a path that is a file raises.\<close>

definition rename_images ::
  "fs \<Rightarrow> path \<Rightarrow> int \<Rightarrow> string \<Rightarrow> bool \<Rightarrow> error + fs \<times> string list" where
  "rename_images fs directory start_number prefix dry_run =
     (case lookup fs directory of
        None \<Rightarrow>
          Inr (fs, [''Error: Directory '' @ [CHR 0x27] @ path_text directory @ [CHR 0x27]
                    @ '' not found.''])
      | Some (File _) \<Rightarrow> Inl (NotADirectoryError directory)
      | Some Dir \<Rightarrow>
          (let imgs = image_files fs directory in
           if imgs = [] then Inr (fs, [''No image files found in the directory.''])
           else
             (let total_files = length imgs;
                  max_number = start_number + int total_files - 1;
                  padding = length (str max_number);
                  (fs', renamed_count, out) =
                     rename_loop directory start_number prefix dry_run padding fs 0
                       [''Found '' @ str (int total_files) @ '' image file(s) in '' @ [CHR 0x27]
                        @ path_text directory @ [CHR 0x27]]
                       (enumerate 0 imgs)
              in Inr (fs',
                      out @ [if dry_run
                             then [CHR 0x0A] @ ''Dry run complete. Would rename ''
                                  @ str (int renamed_count) @ '' file(s).''
                             else [CHR 0x0A] @ ''Renaming complete. Successfully renamed ''
                                  @ str (int renamed_count) @ '' file(s).'']))))"

text \<open>The command line as parsed by \<open>argparse\<close>, and \<open>main\<close>.\<close>

record args =
  directory :: path
  start :: int
  prefix :: string
  dry_run :: bool
  extensions :: "string list"

definition main :: "fs \<Rightarrow> args \<Rightarrow> error + fs \<times> string list" where
  "main fs a =
     (if start a < 0 then Inr (fs, [''Error: Start number must be non-negative.''])
      else
        (case rename_images fs (directory a) (start a) (prefix a) (dry_run a) of
           Inl e \<Rightarrow> Inl e
         | Inr (fs', out) \<Rightarrow>
             Inr (fs',
                  [''Starting image renaming process...'',
                   ''Directory: '' @ path_text (directory a),
                   ''Start number: '' @ str (start a),
                   ''Prefix: '' @ prefix a,
                   ''Dry run: '' @ (if dry_run a then ''True'' else ''False''),
                   replicate 50 CHR ''-''] @ out)))"

section \<open>Notions used in the properties\<close>

text \<open>The counters are consistent when every counted line is counted as changed
  or as unchanged.\<close>

definition counted :: "stats \<Rightarrow> bool" where
  "counted st = (lines st = changed st + unchanged st)"

text \<open>A small tree for the evaluated examples: a label directory with one label
  file and the two class lists beside it.\<close>

definition example_fs :: fs where
  "example_fs =
     [([''data''], Dir),
      ([''data'', ''labels''], Dir),
      ([''data'', ''labels'', ''a.txt''],
         File (''0 0.1 0.2 0.3 0.4'' @ [CHR 0x0A] @ ''1  0.5 0.5 0.1 0.1'' @ [CHR 0x0A] @ ''7 1 1 1 1'')),
      ([''data'', ''old.txt''], File (''cat'' @ [CHR 0x0A] @ ''dog'' @ [CHR 0x0A])),
      ([''data'', ''new.txt''], File (''dog'' @ [CHR 0x0A] @ ''cat'' @ [CHR 0x0A]))]"

text \<open>The names the renamer is to give, in the words of its specification: for the
  sorted image files, \<open>prefix_n.ext\<close> with \<open>n\<close> counting up from the start number,
  padded with zeros to the width of the largest number, and the suffix of the
  file kept.\<close>

definition target_names :: "string list \<Rightarrow> string \<Rightarrow> int \<Rightarrow> string list" where
  "target_names imgs pre start_number =
     (let width = length (str (start_number + int (length imgs) - 1))
      in map (\<lambda>(i, f). pre @ ''_'' @ zfill width (str (start_number + int i)) @ suffix f)
             (enumerate 0 imgs))"

text \<open>The directory after the run holds exactly the image files with these
  names, all different, the file under the k-th name being the k-th image file of
  the sorted listing before the run.\<close>

definition renamed_in_order :: "fs \<Rightarrow> fs \<Rightarrow> path \<Rightarrow> string \<Rightarrow> int \<Rightarrow> bool" where
  "renamed_in_order fs fs' d pre start_number =
     (let imgs = image_files fs d; tgts = target_names imgs pre start_number
      in distinct tgts \<and> set (image_files fs' d) = set tgts \<and>
         (\<forall>k\<in>set [0..<length imgs]. lookup fs' (d @ [tgts ! k]) = lookup fs (d @ [imgs ! k])))"

text \<open>No name to be given is taken by another entry of the directory when its
  turn comes: it is free, or it is the name the file already has, or it is the
  name of an image file earlier in the sorted listing, which has been given its
  new name by then.\<close>

definition free_targets :: "fs \<Rightarrow> path \<Rightarrow> string \<Rightarrow> int \<Rightarrow> bool" where
  "free_targets fs d pre start_number =
     (let imgs = image_files fs d; tgts = target_names imgs pre start_number
      in \<forall>k\<in>set [0..<length imgs].
           exists fs (d @ [tgts ! k]) \<longrightarrow> tgts ! k \<in> set (take (Suc k) imgs))"

text \<open>The directory contents after the first k renames of a run without
  collisions, as a map from paths.\<close>

primrec moved :: "fs \<Rightarrow> path \<Rightarrow> string list \<Rightarrow> string list \<Rightarrow> nat \<Rightarrow> path \<rightharpoonup> node" where
  "moved fs d imgs tgts 0 = lookup fs"
| "moved fs d imgs tgts (Suc k) =
     (moved fs d imgs tgts k)(d @ [imgs ! k] := None, d @ [tgts ! k] := lookup fs (d @ [imgs ! k]))"

text \<open>A directory of pictures for the evaluated examples.\<close>

definition example_pics :: fs where
  "example_pics =
     [([''pics''], Dir),
      ([''pics'', ''c.png''], File ''C''),
      ([''pics'', ''a.jpg''], File ''A''),
      ([''pics'', ''b.GIF''], File ''B''),
      ([''pics'', ''notes.txt''], File ''N'')]"

text \<open>What the proof about the renaming loop needs of the listing and the names
  to be given: as many names as files, no repetition among either, every listed
  name a file, and no name to be given taken by another entry when its turn
  comes.\<close>

definition renaming_ok :: "fs \<Rightarrow> path \<Rightarrow> string list \<Rightarrow> string list \<Rightarrow> bool" where
  "renaming_ok fs d imgs tgts =
     (length tgts = length imgs \<and> distinct imgs \<and> distinct tgts \<and>
      (\<forall>f\<in>set imgs. \<exists>c. lookup fs (d @ [f]) = Some (File c)) \<and>
      (\<forall>k<length imgs. exists fs (d @ [tgts ! k]) \<longrightarrow> tgts ! k \<in> set (take (Suc k) imgs)))"

text \<open>The label files of a directory, in the order the engine takes them, and the
  non-blank lines of a text.\<close>

definition is_label_file :: "fs \<Rightarrow> path \<Rightarrow> bool" where
  "is_label_file fs f = (is_file fs f \<and> lower (suffix (name f)) = ''.txt'')"

definition label_files :: "fs \<Rightarrow> path \<Rightarrow> path list" where
  "label_files fs labels_dir = [f \<leftarrow> sort (iterdir fs labels_dir). is_label_file fs f]"

definition nonblank_lines :: "string \<Rightarrow> string list" where
  "nonblank_lines content = [raw \<leftarrow> splitlines content. strip raw \<noteq> []]"

text \<open>Lines 42 to 52 of \<open>remap_by_name\<close> on their own: the file system in which
  the class lists and the label files are read, or the exception raised before
  that.\<close>

definition prepare :: "fs \<Rightarrow> path \<Rightarrow> path \<Rightarrow> bool \<Rightarrow> error + fs" where
  "prepare fs labels_dir out_dir create_backup =
     (if \<not> exists fs labels_dir \<or> \<not> is_dir fs labels_dir then Inl LabelsFolderNotFound
      else
        (case mkdir_parents fs out_dir of
           Inl e \<Rightarrow> Inl e
         | Inr fs1 \<Rightarrow>
             (let backup_dir = backup_path labels_dir
              in Inr (if create_backup \<and> \<not> exists fs1 backup_dir
                      then copytree fs1 labels_dir backup_dir else fs1))))"

section \<open>Properties of the text primitives\<close>

lemma split_acc_tokens:
  "t \<in> set (split_acc cur s) \<Longrightarrow> \<forall>c\<in>set cur. \<not> isspace c
     \<Longrightarrow> t \<noteq> [] \<and> (\<forall>c\<in>set t. \<not> isspace c)"
proof (induction s arbitrary: cur)
  case Nil
  then show ?case by (simp split: if_splits)
next
  case (Cons c cs)
  show ?case
  proof (cases "isspace c")
    case True
    show ?thesis
    proof (cases "cur = []")
      case T: True
      with True Cons.prems have "t \<in> set (split_acc [] cs)" by simp
      then show ?thesis using Cons.IH[of "[]"] by simp
    next
      case False
      with True Cons.prems have "t = cur \<or> t \<in> set (split_acc [] cs)" by simp
      then show ?thesis
      proof
        assume "t = cur"
        with False Cons.prems(2) show ?thesis by simp
      next
        assume "t \<in> set (split_acc [] cs)"
        then show ?thesis using Cons.IH[of "[]"] by simp
      qed
    qed
  next
    case False
    with Cons.prems have "t \<in> set (split_acc (cur @ [c]) cs)" by simp
    moreover have "\<forall>x\<in>set (cur @ [c]). \<not> isspace x" using False Cons.prems(2) by simp
    ultimately show ?thesis using Cons.IH[of "cur @ [c]"] by blast
  qed
qed

lemma split_tokens: "t \<in> set (split s) \<Longrightarrow> t \<noteq> [] \<and> (\<forall>c\<in>set t. \<not> isspace c)"
  using split_acc_tokens[of t "[]" s] by (simp add: split_def)

lemma split_acc_nospace:
  "\<forall>c\<in>set t. \<not> isspace c \<Longrightarrow> split_acc cur (t @ s) = split_acc (cur @ t) s"
  by (induction t arbitrary: cur) auto

lemma split_acc_all_space: "\<forall>c\<in>set s. isspace c \<Longrightarrow> split_acc [] s = []"
  by (induction s) auto

lemma split_acc_join:
  "sep = '' '' \<Longrightarrow> \<forall>t\<in>set toks. t \<noteq> [] \<and> (\<forall>c\<in>set t. \<not> isspace c)
     \<Longrightarrow> split_acc [] (join sep toks) = toks"
proof (induction sep toks rule: join.induct)
  case (1 sep)
  show ?case by simp
next
  case (2 sep x)
  then have x: "x \<noteq> []" "\<forall>c\<in>set x. \<not> isspace c" by auto
  then have "split_acc [] (x @ []) = split_acc ([] @ x) []"
    by (intro split_acc_nospace) simp
  with x show ?case by simp
next
  case (3 sep x y ys)
  from 3 have x: "x \<noteq> []" "\<forall>c\<in>set x. \<not> isspace c" by auto
  have sp: "isspace CHR '' ''" by (simp add: isspace_def ord_def)
  have "split_acc [] (x @ '' '' @ join '' '' (y # ys)) = split_acc ([] @ x) ('' '' @ join '' '' (y # ys))"
    using x by (intro split_acc_nospace) simp
  also have "\<dots> = x # split_acc [] (join '' '' (y # ys))"
    using x sp by simp
  finally show ?case using 3 by simp
qed

lemma split_join:
  "\<forall>t\<in>set toks. t \<noteq> [] \<and> (\<forall>c\<in>set t. \<not> isspace c) \<Longrightarrow> split (join '' '' toks) = toks"
  by (simp add: split_def split_acc_join)

lemma strip_empty_iff: "strip s = [] \<longleftrightarrow> (\<forall>c\<in>set s. isspace c)"
proof
  assume "strip s = []"
  then have "\<forall>c\<in>set (dropWhile isspace s). isspace c"
    by (simp add: strip_def dropWhile_eq_Nil_conv)
  then have "dropWhile isspace s = []"
    by (metis dropWhile_eq_Nil_conv dropWhile_idem)
  then show "\<forall>c\<in>set s. isspace c" by (simp add: dropWhile_eq_Nil_conv)
next
  assume "\<forall>c\<in>set s. isspace c"
  then have d: "dropWhile isspace s = []" by (simp add: dropWhile_eq_Nil_conv)
  show "strip s = []" unfolding strip_def d by simp
qed

lemma split_blank: "strip s = [] \<Longrightarrow> split s = []"
  by (simp add: strip_empty_iff split_def split_acc_all_space)

lemma splitlines_acc_no_break:
  "l \<in> set (splitlines_acc cur s) \<Longrightarrow> \<forall>c\<in>set cur. \<not> is_linebreak c \<Longrightarrow> \<forall>c\<in>set l. \<not> is_linebreak c"
proof (induction cur s rule: splitlines_acc.induct)
  case (1 cur)
  then show ?case by (simp split: if_splits)
next
  case (2 cur c)
  then show ?case by (simp split: if_splits)
next
  case (3 cur c d ds)
  show ?case
  proof (cases "c = CHR 0x0D \<and> d = CHR 0x0A")
    case True
    then have "l = cur \<or> l \<in> set (splitlines_acc [] ds)"
      using "3.prems"(1) by simp
    then show ?thesis
    proof
      assume "l = cur" with "3.prems"(2) show ?thesis by simp
    next
      assume "l \<in> set (splitlines_acc [] ds)"
      then show ?thesis using "3.IH"(1)[OF True] by simp
    qed
  next
    case False
    show ?thesis
    proof (cases "is_linebreak c")
      case T: True
      then have "l = cur \<or> l \<in> set (splitlines_acc [] (d # ds))"
        using "3.prems"(1) False by simp
      then show ?thesis
      proof
        assume "l = cur" with "3.prems"(2) show ?thesis by simp
      next
        assume "l \<in> set (splitlines_acc [] (d # ds))"
        then show ?thesis using "3.IH"(2)[OF False T] by simp
      qed
    next
      case F: False
      then have "l \<in> set (splitlines_acc (cur @ [c]) (d # ds))"
        using "3.prems"(1) False by simp
      moreover have "\<forall>x\<in>set (cur @ [c]). \<not> is_linebreak x"
        using "3.prems"(2) F by simp
      ultimately show ?thesis using "3.IH"(3)[OF False F] by blast
    qed
  qed
qed

lemma splitlines_no_break: "l \<in> set (splitlines s) \<Longrightarrow> \<forall>c\<in>set l. \<not> is_linebreak c"
  using splitlines_acc_no_break[of l "[]" s] by (simp add: splitlines_def)

lemma rstrip_nl_id: "CHR 0x0A \<notin> set s \<Longrightarrow> rstrip_nl s = s"
proof -
  assume a: "CHR 0x0A \<notin> set s"
  have "dropWhile (\<lambda>c. c = CHR 0x0A) (rev s) = rev s"
  proof (cases "rev s")
    case Nil then show ?thesis by simp
  next
    case (Cons x xs)
    then have "x \<in> set (rev s)" by simp
    then have "x \<in> set s" by simp
    with a have "x \<noteq> CHR 0x0A" by auto
    then show ?thesis unfolding Cons by simp
  qed
  then show ?thesis by (simp add: rstrip_nl_def)
qed

lemma rstrip_nl_splitlines: "l \<in> set (splitlines s) \<Longrightarrow> rstrip_nl l = l"
proof -
  assume "l \<in> set (splitlines s)"
  then have "\<forall>c\<in>set l. \<not> is_linebreak c" by (rule splitlines_no_break)
  moreover have "is_linebreak (CHR 0x0A)" by (simp add: is_linebreak_def ord_def)
  ultimately have "CHR 0x0A \<notin> set l" by auto
  then show ?thesis by (rule rstrip_nl_id)
qed

lemma digit_char_isdigit: "d < 10 \<Longrightarrow> isdigit (digit_char d)"
  by (simp add: isdigit_def digit_char_def ord_def)

lemma str_nat_digits: "\<forall>c\<in>set (str_nat n). isdigit c"
proof (induction n rule: str_nat.induct)
  case (1 n)
  show ?case
  proof (cases "n < 10")
    case True
    then show ?thesis by (simp add: str_nat.simps[of n] digit_char_isdigit)
  next
    case False
    then have "\<forall>c\<in>set (str_nat (n div 10)). isdigit c" using 1 by simp
    moreover have "isdigit (digit_char (n mod 10))" by (simp add: digit_char_isdigit)
    ultimately show ?thesis using False by (simp add: str_nat.simps[of n])
  qed
qed

lemma str_nat_nonempty: "str_nat n \<noteq> []"
  by (simp add: str_nat.simps[of n])

lemma isdigit_not_space: "isdigit c \<Longrightarrow> \<not> isspace c"
  by (auto simp: isdigit_def isspace_def)

lemma str_nat_token: "str (int j) \<noteq> [] \<and> (\<forall>c\<in>set (str (int j)). \<not> isspace c)"
  using str_nat_digits[of j] by (auto simp: str_def str_nat_nonempty isdigit_not_space)

lemma tl_split_tokens: "\<forall>t\<in>set (tl (split s)). t \<noteq> [] \<and> (\<forall>c\<in>set t. \<not> isspace c)"
proof
  fix t assume "t \<in> set (tl (split s))"
  then have "t \<in> set (split s)" by (metis list.sel(2) list.set_sel(2))
  then show "t \<noteq> [] \<and> (\<forall>c\<in>set t. \<not> isspace c)" by (rule split_tokens)
qed

lemma split_new_line: "split (join '' '' (str (int j) # tl (split s))) = str (int j) # tl (split s)"
proof (rule split_join)
  show "\<forall>t\<in>set (str (int j) # tl (split s)). t \<noteq> [] \<and> (\<forall>c\<in>set t. \<not> isspace c)"
    using str_nat_token[of j] tl_split_tokens[of s] by simp
qed

section \<open>Properties of the label remapper\<close>

subsection \<open>The dictionaries\<close>

lemma old_index_to_name_snoc:
  "old_index_to_name (xs @ [x]) = (old_index_to_name xs)(int (length xs) \<mapsto> x)"
  by (simp add: old_index_to_name_def enumerate_append_eq)

lemma name_to_new_snoc:
  "name_to_new (xs @ [x]) = (name_to_new xs)(x \<mapsto> int (length xs))"
  by (simp add: name_to_new_def enumerate_append_eq)

lemma old_index_to_name_eq:
  "old_index_to_name old i = (if 0 \<le> i \<and> i < int (length old) then Some (old ! nat i) else None)"
proof (induction old rule: rev_induct)
  case Nil
  show ?case by (simp add: old_index_to_name_def)
next
  case (snoc x xs)
  show ?case
  proof (cases "i = int (length xs)")
    case True
    then show ?thesis by (simp add: old_index_to_name_snoc)
  next
    case False
    then have "old_index_to_name (xs @ [x]) i = old_index_to_name xs i"
      by (simp add: old_index_to_name_snoc)
    with False snoc show ?thesis
      by (auto simp: nth_append)
  qed
qed

lemma name_to_new_None: "name_to_new new nm = None \<longleftrightarrow> nm \<notin> set new"
proof (induction new rule: rev_induct)
  case Nil
  show ?case by (simp add: name_to_new_def)
next
  case (snoc x xs)
  then show ?case by (simp add: name_to_new_snoc)
qed

lemma is_last_index_iff:
  "is_last_index new nm q \<longleftrightarrow>
     q < length new \<and> new ! q = nm \<and> (\<forall>k. q < k \<and> k < length new \<longrightarrow> new ! k \<noteq> nm)"
proof -
  have "nm \<in> set (drop (Suc q) new) \<longleftrightarrow> (\<exists>k. q < k \<and> k < length new \<and> new ! k = nm)"
  proof
    assume "nm \<in> set (drop (Suc q) new)"
    then obtain i where i: "i < length (drop (Suc q) new)" and n: "drop (Suc q) new ! i = nm"
      by (auto simp: in_set_conv_nth)
    from i have "q < Suc q + i \<and> Suc q + i < length new" by simp
    moreover from i n have "new ! (Suc q + i) = nm" by simp
    ultimately show "\<exists>k. q < k \<and> k < length new \<and> new ! k = nm" by blast
  next
    assume "\<exists>k. q < k \<and> k < length new \<and> new ! k = nm"
    then obtain k where k: "q < k" "k < length new" "new ! k = nm" by blast
    then have "k - Suc q < length (drop (Suc q) new)" by simp
    moreover from k have "drop (Suc q) new ! (k - Suc q) = nm" by simp
    ultimately show "nm \<in> set (drop (Suc q) new)" by (metis nth_mem)
  qed
  then show ?thesis unfolding is_last_index_def by blast
qed

lemma is_last_index_snoc_eq: "is_last_index (xs @ [x]) x q \<longleftrightarrow> q = length xs"
proof
  assume h: "is_last_index (xs @ [x]) x q"
  show "q = length xs"
  proof (rule ccontr)
    assume "q \<noteq> length xs"
    with h have "q < length xs" by (simp add: is_last_index_iff)
    moreover from h have "\<forall>k. q < k \<and> k < length (xs @ [x]) \<longrightarrow> (xs @ [x]) ! k \<noteq> x"
      by (simp add: is_last_index_iff)
    ultimately have "(xs @ [x]) ! length xs \<noteq> x" by (metis length_append_singleton lessI)
    then show False by simp
  qed
next
  assume "q = length xs"
  then show "is_last_index (xs @ [x]) x q" by (auto simp: is_last_index_iff)
qed

lemma is_last_index_snoc_neq:
  "nm \<noteq> x \<Longrightarrow> is_last_index (xs @ [x]) nm q \<longleftrightarrow> is_last_index xs nm q"
proof
  assume n: "nm \<noteq> x" and h: "is_last_index (xs @ [x]) nm q"
  from h n have q: "q < length xs"
    by (cases "q = length xs") (auto simp: is_last_index_iff)
  from h q have "xs ! q = nm" by (simp add: is_last_index_iff nth_append)
  moreover have "\<forall>k. q < k \<and> k < length xs \<longrightarrow> xs ! k \<noteq> nm"
  proof (intro allI impI)
    fix k assume k: "q < k \<and> k < length xs"
    with h have "(xs @ [x]) ! k \<noteq> nm" by (simp add: is_last_index_iff)
    with k show "xs ! k \<noteq> nm" by (simp add: nth_append)
  qed
  ultimately show "is_last_index xs nm q" using q by (simp add: is_last_index_iff)
next
  assume n: "nm \<noteq> x" and h: "is_last_index xs nm q"
  then show "is_last_index (xs @ [x]) nm q"
    by (auto simp: is_last_index_iff nth_append)
qed

lemma name_to_new_Some:
  "name_to_new new nm = Some j \<longleftrightarrow> (\<exists>q. j = int q \<and> is_last_index new nm q)"
proof (induction new rule: rev_induct)
  case Nil
  show ?case by (simp add: name_to_new_def is_last_index_iff)
next
  case (snoc x xs)
  show ?case
  proof (cases "nm = x")
    case True
    then show ?thesis by (auto simp: name_to_new_snoc is_last_index_snoc_eq)
  next
    case False
    then show ?thesis using snoc by (simp add: name_to_new_snoc is_last_index_snoc_neq)
  qed
qed

subsection \<open>Single lines\<close>

lemma remap_line_valid:
  assumes "valid_line old new ln"
  shows "\<exists>i j. py_int (hd (split ln)) = Some i \<and> is_last_index new (old ! nat i) j \<and>
               remap_line old new ln =
                 (join '' '' (str (int j) # tl (split ln)),
                  join '' '' (str (int j) # tl (split ln)) \<noteq> ln)"
proof -
  from assms obtain i where len: "5 \<le> length (split ln)"
    and i: "py_int (hd (split ln)) = Some i"
    and r: "0 \<le> i" "i < int (length old)" and m: "old ! nat i \<in> set new"
    by (auto simp: valid_line_def split: option.splits)
  from r have o: "old_index_to_name old i = Some (old ! nat i)"
    by (simp add: old_index_to_name_eq)
  from m have "name_to_new new (old ! nat i) \<noteq> None" by (simp add: name_to_new_None)
  then obtain v where v: "name_to_new new (old ! nat i) = Some v" by blast
  then obtain j where j: "v = int j" "is_last_index new (old ! nat i) j"
    by (auto simp: name_to_new_Some)
  from len have nl: "\<not> length (split ln) < 5" by simp
  have "remap_line old new ln =
          (join '' '' (str (int j) # tl (split ln)),
           join '' '' (str (int j) # tl (split ln)) \<noteq> ln)"
    unfolding remap_line_def Let_def using nl i o v j(1) by simp
  with i j(2) show ?thesis by blast
qed

lemma remap_line_invalid:
  assumes "\<not> valid_line old new ln"
  shows "remap_line old new ln = (ln, False)"
proof (cases "length (split ln) < 5")
  case True
  then show ?thesis by (simp add: remap_line_def)
next
  case False
  show ?thesis
  proof (cases "py_int (hd (split ln))")
    case None
    with False show ?thesis by (simp add: remap_line_def)
  next
    case (Some i)
    show ?thesis
    proof (cases "0 \<le> i \<and> i < int (length old)")
      case F: False
      then have "old_index_to_name old i = None" by (simp add: old_index_to_name_eq)
      with False Some show ?thesis by (simp add: remap_line_def)
    next
      case True
      then have o: "old_index_to_name old i = Some (old ! nat i)"
        by (simp add: old_index_to_name_eq)
      from assms False Some True have "old ! nat i \<notin> set new"
        by (simp add: valid_line_def)
      then have "name_to_new new (old ! nat i) = None" by (simp add: name_to_new_None)
      with False Some o show ?thesis by (simp add: remap_line_def)
    qed
  qed
qed

lemma valid_line_nonblank: "valid_line old new ln \<Longrightarrow> strip ln \<noteq> []"
proof
  assume v: "valid_line old new ln" and "strip ln = []"
  then have "split ln = []" by (simp add: split_blank)
  with v show False by (simp add: valid_line_def)
qed

text \<open>C1. A label line with at least five tokens, whose first token parses as a
  position of the old class list and whose name occurs in the new class list, is
  emitted as the decimal text of the last position of that name in the new list
  followed by the remaining tokens of the line, in order, joined by single
  spaces; the tokens of the emitted line are exactly these.\<close>

theorem valid_line_emitted:
  assumes "raw \<in> set (splitlines content)"
      and "valid_line old new raw"
  shows "\<exists>i j. py_int (hd (split raw)) = Some i \<and> is_last_index new (old ! nat i) j \<and>
               fst (process_raw old new (out_lines, st) raw)
                 = out_lines @ [join '' '' (str (int j) # tl (split raw))] \<and>
               split (join '' '' (str (int j) # tl (split raw))) = str (int j) # tl (split raw)"
proof -
  from assms(1) have r: "rstrip_nl raw = raw" by (rule rstrip_nl_splitlines)
  from assms(2) have nb: "strip raw \<noteq> []" by (rule valid_line_nonblank)
  from remap_line_valid[OF assms(2)] obtain i j where
    i: "py_int (hd (split raw)) = Some i" and j: "is_last_index new (old ! nat i) j" and
    e: "remap_line old new raw =
          (join '' '' (str (int j) # tl (split raw)),
           join '' '' (str (int j) # tl (split raw)) \<noteq> raw)"
    by blast
  have "fst (process_raw old new (out_lines, st) raw)
          = out_lines @ [join '' '' (str (int j) # tl (split raw))]"
    unfolding process_raw_def using r nb e by (simp add: Let_def)
  with i j split_new_line[of j raw] show ?thesis by blast
qed

theorem valid_line_emitted_witness:
  "''2 0.1  0.2 0.3 0.4'' \<in> set (splitlines (''2 0.1  0.2 0.3 0.4'' @ [CHR 0x0A]))
   \<and> valid_line [''cat'', ''dog'', ''bird''] [''bird'', ''dog'', ''bird'', ''cat''] ''2 0.1  0.2 0.3 0.4''
   \<and> fst (process_raw [''cat'', ''dog'', ''bird''] [''bird'', ''dog'', ''bird'', ''cat''] ([], stats0)
            ''2 0.1  0.2 0.3 0.4'') = [''2 0.1 0.2 0.3 0.4'']"
proof -
  have h1: "''2 0.1  0.2 0.3 0.4'' \<in> set (splitlines (''2 0.1  0.2 0.3 0.4'' @ [CHR 0x0A]))"
    by code_simp
  have h2: "valid_line [''cat'', ''dog'', ''bird''] [''bird'', ''dog'', ''bird'', ''cat''] ''2 0.1  0.2 0.3 0.4''"
    by code_simp
  have e: "fst (process_raw [''cat'', ''dog'', ''bird''] [''bird'', ''dog'', ''bird'', ''cat''] ([], stats0)
            ''2 0.1  0.2 0.3 0.4'') = [''2 0.1 0.2 0.3 0.4'']"
    by code_simp
  from valid_line_emitted[OF h1 h2, of "[]" stats0] h1 h2 e show ?thesis by blast
qed

text \<open>C2. A non-blank label line that fails a validity condition (fewer than five
  tokens, a first token that does not parse, a position outside the old list, or
  a name that the new list lacks) is emitted exactly as it was read, and counted
  as unchanged.\<close>

theorem invalid_line_kept:
  assumes "raw \<in> set (splitlines content)"
      and "strip raw \<noteq> []"
      and "\<not> valid_line old new raw"
  shows "process_raw old new (out_lines, st) raw
           = (out_lines @ [raw], st\<lparr>lines := lines st + 1, unchanged := unchanged st + 1\<rparr>)"
proof -
  from assms(1) have r: "rstrip_nl raw = raw" by (rule rstrip_nl_splitlines)
  from assms(3) have e: "remap_line old new raw = (raw, False)" by (rule remap_line_invalid)
  show ?thesis unfolding process_raw_def using r assms(2) e by (simp add: Let_def)
qed

theorem invalid_line_kept_witness:
  "''7  0.1 0.2 0.3 0.4'' \<in> set (splitlines (''7  0.1 0.2 0.3 0.4'' @ [CHR 0x0A]))
   \<and> strip ''7  0.1 0.2 0.3 0.4'' \<noteq> []
   \<and> \<not> valid_line [''cat'', ''dog''] [''dog'', ''cat''] ''7  0.1 0.2 0.3 0.4''
   \<and> process_raw [''cat'', ''dog''] [''dog'', ''cat''] ([], stats0) ''7  0.1 0.2 0.3 0.4''
       = ([''7  0.1 0.2 0.3 0.4''], stats0\<lparr>lines := 1, unchanged := 1\<rparr>)"
proof -
  have h1: "''7  0.1 0.2 0.3 0.4'' \<in> set (splitlines (''7  0.1 0.2 0.3 0.4'' @ [CHR 0x0A]))"
    by code_simp
  have h2: "strip ''7  0.1 0.2 0.3 0.4'' \<noteq> []" by code_simp
  have h3: "\<not> valid_line [''cat'', ''dog''] [''dog'', ''cat''] ''7  0.1 0.2 0.3 0.4''"
    by code_simp
  from invalid_line_kept[OF h1 h2 h3, of "[]" stats0] h1 h2 h3 show ?thesis
    by (simp add: stats0_def)
qed

subsection \<open>The counters\<close>

lemma process_raw_counted:
  "counted st \<Longrightarrow> counted (snd (process_raw old new (out_lines, st) raw))"
proof -
  assume c: "counted st"
  obtain l ch where r: "remap_line old new (rstrip_nl raw) = (l, ch)" by (cases "remap_line old new (rstrip_nl raw)")
  show ?thesis
  proof (cases "strip (rstrip_nl raw) = []")
    case True
    with c show ?thesis by (simp add: process_raw_def)
  next
    case False
    with c r show ?thesis by (cases ch) (simp_all add: process_raw_def counted_def)
  qed
qed

lemma foldl_process_raw_counted:
  "counted (snd acc) \<Longrightarrow> counted (snd (foldl (process_raw old new) acc raws))"
proof (induction raws arbitrary: acc)
  case Nil
  then show ?case by simp
next
  case (Cons raw raws)
  obtain ol st where a: "acc = (ol, st)" by (cases acc)
  with Cons.prems have "counted (snd (process_raw old new acc raw))"
    by (simp add: process_raw_counted)
  then show ?case using Cons.IH by simp
qed

lemma process_content_counted:
  "counted st \<Longrightarrow> process_content old new st content = (out_lines, st') \<Longrightarrow> counted st'"
proof -
  assume c: "counted st" and p: "process_content old new st content = (out_lines, st')"
  from c have "counted (snd (foldl (process_raw old new) ([], st) (splitlines content)))"
    by (intro foldl_process_raw_counted) simp
  with p show "counted st'" by (simp add: process_content_def)
qed

lemma remap_files_counted:
  "counted st \<Longrightarrow> remap_files old new out_dir fs st fl = (fs', Inr st') \<Longrightarrow> counted st'"
proof (induction fl arbitrary: fs st)
  case Nil
  then show ?case by simp
next
  case (Cons f rest)
  show ?case
  proof (cases "\<not> is_file fs f \<or> lower (suffix (name f)) \<noteq> ''.txt''")
    case True
    with Cons.prems(2) have "remap_files old new out_dir fs st rest = (fs', Inr st')" by simp
    with Cons.IH Cons.prems(1) show ?thesis by blast
  next
    case False
    obtain ol st2 where pc:
      "process_content old new (st\<lparr>files := files st + 1\<rparr>) (read_text fs f) = (ol, st2)"
      by (cases "process_content old new (st\<lparr>files := files st + 1\<rparr>) (read_text fs f)")
    from Cons.prems(1) have "counted (st\<lparr>files := files st + 1\<rparr>)" by (simp add: counted_def)
    with pc have c2: "counted st2" by (rule process_content_counted[rotated])
    show ?thesis
    proof (cases "write_text fs (out_dir @ [name f]) (out_text ol)")
      case (Inl e)
      with False pc Cons.prems(2) show ?thesis by (simp add: Let_def)
    next
      case (Inr fs1)
      with False pc Cons.prems(2) have "remap_files old new out_dir fs1 st2 rest = (fs', Inr st')"
        by (simp add: Let_def)
      with Cons.IH c2 show ?thesis by blast
    qed
  qed
qed

subsection \<open>The file system operations\<close>

lemma map_of_filter_neq:
  "map_of (filter (\<lambda>(q, _). q \<noteq> p) fs) q = (if q = p then None else map_of fs q)"
  by (induction fs) auto

lemma lookup_fs_put:
  "lookup (fs_put fs p n) q = (if q = [] then Some Dir else if q = p then Some n else lookup fs q)"
  by (simp add: lookup_def fs_put_def map_of_filter_neq)

lemma lookup_root: "lookup fs [] = Some Dir"
  by (simp add: lookup_def)

lemma lookup_fs_put_other: "q \<noteq> p \<Longrightarrow> lookup (fs_put fs p n) q = lookup fs q"
  by (cases "q = []") (simp_all add: lookup_fs_put lookup_root)

lemma lookup_fs_put_same: "p \<noteq> [] \<Longrightarrow> lookup (fs_put fs p n) p = Some n"
  by (simp add: lookup_fs_put)

lemma mkdirs_keeps:
  "mkdirs fs pre cs = Inr fs' \<Longrightarrow> lookup fs q = Some n \<Longrightarrow> lookup fs' q = Some n"
proof (induction cs arbitrary: fs pre)
  case Nil
  then show ?case by simp
next
  case (Cons c cs)
  show ?case
  proof (cases "lookup fs (pre @ [c])")
    case None
    with Cons.prems(1) have m: "mkdirs (fs_put fs (pre @ [c]) Dir) (pre @ [c]) cs = Inr fs'"
      by (simp add: Let_def)
    from None Cons.prems(2) have "q \<noteq> pre @ [c]" by auto
    with Cons.prems(2) have "lookup (fs_put fs (pre @ [c]) Dir) q = Some n"
      by (simp add: lookup_fs_put_other)
    with Cons.IH[OF m] show ?thesis by blast
  next
    case (Some nd)
    show ?thesis
    proof (cases nd)
      case Dir
      with Some Cons.prems(1) have "mkdirs fs (pre @ [c]) cs = Inr fs'" by (simp add: Let_def)
      with Cons.IH Cons.prems(2) show ?thesis by blast
    next
      case (File x)
      with Some Cons.prems(1) show ?thesis by (simp add: Let_def)
    qed
  qed
qed

lemma mkdirs_is_dir:
  "is_dir fs pre \<Longrightarrow> mkdirs fs pre cs = Inr fs' \<Longrightarrow> is_dir fs' (pre @ cs)"
proof (induction cs arbitrary: fs pre)
  case Nil
  then show ?case by simp
next
  case (Cons c cs)
  show ?case
  proof (cases "lookup fs (pre @ [c])")
    case None
    with Cons.prems(2) have m: "mkdirs (fs_put fs (pre @ [c]) Dir) (pre @ [c]) cs = Inr fs'"
      by (simp add: Let_def)
    have "is_dir (fs_put fs (pre @ [c]) Dir) (pre @ [c])"
      by (simp add: is_dir_def lookup_fs_put)
    from Cons.IH[OF this m] show ?thesis by simp
  next
    case (Some nd)
    show ?thesis
    proof (cases nd)
      case Dir
      with Some Cons.prems(2) have m: "mkdirs fs (pre @ [c]) cs = Inr fs'" by (simp add: Let_def)
      from Some Dir have "is_dir fs (pre @ [c])" by (simp add: is_dir_def)
      from Cons.IH[OF this m] show ?thesis by simp
    next
      case (File x)
      with Some Cons.prems(2) show ?thesis by (simp add: Let_def)
    qed
  qed
qed

lemma mkdir_parents_is_dir: "mkdir_parents fs p = Inr fs' \<Longrightarrow> is_dir fs' p"
  using mkdirs_is_dir[of fs "[]" p fs'] by (simp add: mkdir_parents_def is_dir_def lookup_def)

lemma mkdir_parents_keeps:
  "mkdir_parents fs p = Inr fs' \<Longrightarrow> lookup fs q = Some n \<Longrightarrow> lookup fs' q = Some n"
  unfolding mkdir_parents_def by (rule mkdirs_keeps)

lemma copy_fold_other:
  "q \<notin> (\<lambda>p. dst @ drop k p) ` set ps \<Longrightarrow>
   lookup (fold (\<lambda>p acc. case lookup fs p of Some n \<Rightarrow> fs_put acc (dst @ drop k p) n
                                             | None \<Rightarrow> acc) ps acc) q = lookup acc q"
proof (induction ps arbitrary: acc)
  case Nil
  show ?case by simp
next
  case (Cons p ps)
  from Cons.prems have q: "q \<noteq> dst @ drop k p" and r: "q \<notin> (\<lambda>p. dst @ drop k p) ` set ps"
    by auto
  show ?case
  proof (cases "lookup fs p")
    case None
    with Cons.IH[OF r] show ?thesis by simp
  next
    case (Some n)
    with Cons.IH[OF r, of "fs_put acc (dst @ drop k p) n"] q show ?thesis
      by (simp add: lookup_fs_put_other)
  qed
qed

lemma copy_fold_hit:
  "\<forall>p\<in>set ps. below src p \<Longrightarrow> p \<in> set ps \<Longrightarrow> lookup fs p = Some n \<Longrightarrow>
   lookup (fold (\<lambda>p acc. case lookup fs p of Some n \<Rightarrow> fs_put acc (dst @ drop (length src) p) n
                                             | None \<Rightarrow> acc) ps acc)
          (dst @ drop (length src) p) = Some n"
proof (induction ps arbitrary: p n rule: rev_induct)
  case Nil
  then show ?case by simp
next
  case (snoc x xs)
  from snoc.prems(2) have bp: "below src p" using snoc.prems(1) by blast
  then have ne: "dst @ drop (length src) p \<noteq> []" by (simp add: below_def)
  show ?case
  proof (cases "dst @ drop (length src) x = dst @ drop (length src) p")
    case True
    from snoc.prems(1) have bx: "below src x" by simp
    from True have "drop (length src) x = drop (length src) p" by simp
    moreover from bx have "x = src @ drop (length src) x"
      by (metis append_take_drop_id below_def)
    moreover from bp have "p = src @ drop (length src) p"
      by (metis append_take_drop_id below_def)
    ultimately have "x = p" by simp
    with snoc.prems(3) lookup_fs_put_same[OF ne] show ?thesis by simp
  next
    case False
    with snoc.prems(2) bp have pin: "p \<in> set xs"
      by auto
    from snoc.prems(1) have "\<forall>p\<in>set xs. below src p" by simp
    from snoc.IH[OF this pin snoc.prems(3)] False show ?thesis
      by (cases "lookup fs x") (simp_all add: lookup_fs_put_other)
  qed
qed

lemma copytree_copies:
  assumes "below src p" and "lookup fs p = Some n"
  shows "lookup (copytree fs src dst) (dst @ drop (length src) p) = Some n"
proof -
  from assms(1) have "p \<noteq> []" by (auto simp: below_def)
  with assms(2) have "map_of fs p = Some n" by (simp add: lookup_def)
  then have "(p, n) \<in> set fs" by (rule map_of_SomeD)
  with assms(1) have pin: "p \<in> set (remdups [p. (p, n) \<leftarrow> fs, below src p])" by auto
  have all: "\<forall>p\<in>set (remdups [p. (p, n) \<leftarrow> fs, below src p]). below src p" by auto
  show ?thesis unfolding copytree_def by (rule copy_fold_hit[OF all pin assms(2)])
qed

lemma copytree_frame:
  assumes "q \<noteq> dst" and "\<not> below dst q"
  shows "lookup (copytree fs src dst) q = lookup fs q"
proof -
  have "q \<notin> (\<lambda>p. dst @ drop (length src) p) ` set (remdups [p. (p, n) \<leftarrow> fs, below src p])"
  proof
    assume "q \<in> (\<lambda>p. dst @ drop (length src) p) ` set (remdups [p. (p, n) \<leftarrow> fs, below src p])"
    then obtain p where "below src p" and "q = dst @ drop (length src) p" by auto
    then have "below dst q" by (auto simp: below_def)
    with assms(2) show False by simp
  qed
  then have "lookup (copytree fs src dst) q = lookup (fs_put fs dst Dir) q"
    unfolding copytree_def by (rule copy_fold_other)
  with assms(1) show ?thesis by (simp add: lookup_fs_put_other)
qed

lemma copytree_is_dir: "is_dir (copytree fs src dst) dst"
proof -
  have "dst \<notin> (\<lambda>p. dst @ drop (length src) p) ` set (remdups [p. (p, n) \<leftarrow> fs, below src p])"
  proof
    assume "dst \<in> (\<lambda>p. dst @ drop (length src) p) ` set (remdups [p. (p, n) \<leftarrow> fs, below src p])"
    then obtain p where "below src p" and "dst = dst @ drop (length src) p" by auto
    then show False by (simp add: below_def)
  qed
  then have "lookup (copytree fs src dst) dst = lookup (fs_put fs dst Dir) dst"
    unfolding copytree_def by (rule copy_fold_other)
  then show ?thesis by (simp add: is_dir_def lookup_fs_put lookup_root)
qed

lemma write_text_frame:
  "write_text fs p s = Inr fs' \<Longrightarrow> q \<noteq> p \<Longrightarrow> lookup fs' q = lookup fs q"
proof -
  assume w: "write_text fs p s = Inr fs'" and q: "q \<noteq> p"
  from w have "fs' = fs_put fs p (File s)"
    by (simp add: write_text_def split: option.splits node.splits)
  with q show ?thesis by (simp add: lookup_fs_put_other)
qed

lemma remap_files_frame:
  "q = [] \<or> butlast q \<noteq> out_dir \<Longrightarrow>
   lookup (fst (remap_files old new out_dir fs st fl)) q = lookup fs q"
proof (induction fl arbitrary: fs st)
  case Nil
  show ?case by simp
next
  case (Cons f rest)
  show ?case
  proof (cases "\<not> is_file fs f \<or> lower (suffix (name f)) \<noteq> ''.txt''")
    case True
    with Cons.IH[OF Cons.prems] show ?thesis by simp
  next
    case False
    obtain ol st2 where pc:
      "process_content old new (st\<lparr>files := files st + 1\<rparr>) (read_text fs f) = (ol, st2)"
      by (cases "process_content old new (st\<lparr>files := files st + 1\<rparr>) (read_text fs f)")
    show ?thesis
    proof (cases "write_text fs (out_dir @ [name f]) (out_text ol)")
      case (Inl e)
      with False pc show ?thesis by (simp add: Let_def)
    next
      case (Inr fs1)
      from Cons.prems have "q \<noteq> out_dir @ [name f]" by auto
      with Inr have "lookup fs1 q = lookup fs q" by (rule write_text_frame)
      moreover from False pc Inr
      have "remap_files old new out_dir fs st (f # rest) = remap_files old new out_dir fs1 st2 rest"
        by (simp add: Let_def)
      ultimately show ?thesis using Cons.IH[OF Cons.prems, of fs1 st2] by simp
    qed
  qed
qed

subsection \<open>What a run leaves in place\<close>

lemma remap_from_classes_frame:
  assumes "q = [] \<or> butlast q \<noteq> out_dir"
  shows "lookup (fst (remap_from_classes fs2 labels_dir out_dir op np)) q = lookup fs2 q"
proof (cases "read_classes fs2 op")
  case (Inl e)
  then show ?thesis by (simp add: remap_from_classes_def)
next
  case old: (Inr old)
  show ?thesis
  proof (cases "read_classes fs2 np")
    case (Inl e)
    with old show ?thesis by (simp add: remap_from_classes_def)
  next
    case new: (Inr new)
    obtain fs3 r where rf:
      "remap_files old new out_dir fs2 stats0 (sort (iterdir fs2 labels_dir)) = (fs3, r)"
      by (cases "remap_files old new out_dir fs2 stats0 (sort (iterdir fs2 labels_dir))")
    from remap_files_frame[OF assms, of old new fs2 stats0 "sort (iterdir fs2 labels_dir)"] rf
    have f3: "lookup fs3 q = lookup fs2 q" by simp
    show ?thesis
    proof (cases r)
      case (Inl e)
      with old new rf f3 show ?thesis by (simp add: remap_from_classes_def)
    next
      case st: (Inr st)
      show ?thesis
      proof (cases "write_text fs3 (out_dir @ [''classes_mapped.txt'']) (join [CHR 0x0A] new @ [CHR 0x0A])")
        case (Inl e)
        with old new rf st f3 show ?thesis by (simp add: remap_from_classes_def)
      next
        case (Inr fs4)
        from assms have "q \<noteq> out_dir @ [''classes_mapped.txt'']" by auto
        with Inr have "lookup fs4 q = lookup fs3 q" by (rule write_text_frame)
        with old new rf st f3 Inr show ?thesis by (simp add: remap_from_classes_def)
      qed
    qed
  qed
qed

lemma not_below_backup: "\<not> below (backup_path labels_dir) (labels_dir @ [n])"
proof (cases "labels_dir = []")
  case True
  then show ?thesis by (simp add: below_def backup_path_def parent_def)
next
  case False
  then have l: "labels_dir = butlast labels_dir @ [last labels_dir]" by simp
  have "butlast labels_dir @ [last labels_dir] \<noteq> butlast labels_dir @ [last labels_dir @ ''_backup'']"
    by simp
  with l have ne: "labels_dir \<noteq> backup_path labels_dir"
    using False by (simp add: backup_path_def parent_def name_def)
  have len: "length (backup_path labels_dir) = length labels_dir"
    using False by (simp add: backup_path_def parent_def)
  show ?thesis
  proof
    assume "below (backup_path labels_dir) (labels_dir @ [n])"
    then have "take (length (backup_path labels_dir)) (labels_dir @ [n]) = backup_path labels_dir"
      unfolding below_def by blast
    then have "take (length labels_dir) (labels_dir @ [n]) = backup_path labels_dir"
      unfolding len .
    then have "labels_dir = backup_path labels_dir" by simp
    with ne show False by simp
  qed
qed

lemma label_file_kept:
  assumes "out_dir \<noteq> labels_dir"
      and "lookup fs (labels_dir @ [n]) = Some (File c)"
  shows "lookup (fst (remap_by_name fs labels_dir out_dir old_classes_path new_classes_path
                        create_backup)) (labels_dir @ [n]) = Some (File c)"
proof (cases "\<not> exists fs labels_dir \<or> \<not> is_dir fs labels_dir")
  case True
  with assms(2) show ?thesis by (simp add: remap_by_name_def)
next
  case False
  show ?thesis
  proof (cases "mkdir_parents fs out_dir")
    case (Inl e)
    with False assms(2) show ?thesis by (simp add: remap_by_name_def)
  next
    case (Inr fs1)
    define fs2 where "fs2 = (if create_backup \<and> \<not> exists fs1 (backup_path labels_dir)
                         then copytree fs1 labels_dir (backup_path labels_dir) else fs1)"
    from Inr assms(2) have k1: "lookup fs1 (labels_dir @ [n]) = Some (File c)"
      by (rule mkdir_parents_keeps)
    have k2: "lookup fs2 (labels_dir @ [n]) = Some (File c)"
    proof (cases "create_backup \<and> \<not> exists fs1 (backup_path labels_dir)")
      case True
      with k1 have "labels_dir @ [n] \<noteq> backup_path labels_dir" by (auto simp: exists_def)
      then have "lookup (copytree fs1 labels_dir (backup_path labels_dir)) (labels_dir @ [n])
                   = lookup fs1 (labels_dir @ [n])"
        using not_below_backup by (rule copytree_frame)
      moreover from True have "fs2 = copytree fs1 labels_dir (backup_path labels_dir)"
        unfolding fs2_def by (rule if_P)
      ultimately show ?thesis using k1 by simp
    next
      case F: False
      then have "fs2 = fs1" unfolding fs2_def by (rule if_not_P)
      with k1 show ?thesis by simp
    qed
    from assms(1) have "labels_dir @ [n] = [] \<or> butlast (labels_dir @ [n]) \<noteq> out_dir" by simp
    then have "lookup (fst (remap_from_classes fs2 labels_dir out_dir old_classes_path new_classes_path))
                 (labels_dir @ [n]) = lookup fs2 (labels_dir @ [n])"
      by (rule remap_from_classes_frame)
    moreover have "remap_by_name fs labels_dir out_dir old_classes_path new_classes_path create_backup
                     = remap_from_classes fs2 labels_dir out_dir old_classes_path new_classes_path"
      using False Inr unfolding fs2_def by (simp add: remap_by_name_def Let_def)
    ultimately show ?thesis using k2 by simp
  qed
qed

subsection \<open>Errors of the class files\<close>

lemma mkdirs_prefix_is_dir:
  "mkdirs fs pre (cs1 @ c # cs2) = Inr fs' \<Longrightarrow> is_dir fs' (pre @ cs1 @ [c])"
proof (induction cs1 arbitrary: fs pre)
  case Nil
  show ?case
  proof (cases "lookup fs (pre @ [c])")
    case None
    with Nil have m: "mkdirs (fs_put fs (pre @ [c]) Dir) (pre @ [c]) cs2 = Inr fs'"
      by (simp add: Let_def)
    have "lookup (fs_put fs (pre @ [c]) Dir) (pre @ [c]) = Some Dir"
      by (simp add: lookup_fs_put_same)
    with m have "lookup fs' (pre @ [c]) = Some Dir" by (rule mkdirs_keeps)
    then show ?thesis by (simp add: is_dir_def)
  next
    case (Some nd)
    show ?thesis
    proof (cases nd)
      case Dir
      with Some Nil have m: "mkdirs fs (pre @ [c]) cs2 = Inr fs'" by (simp add: Let_def)
      from Some Dir have "lookup fs (pre @ [c]) = Some Dir" by simp
      with m have "lookup fs' (pre @ [c]) = Some Dir" by (rule mkdirs_keeps)
      then show ?thesis by (simp add: is_dir_def)
    next
      case (File x)
      with Some Nil show ?thesis by (simp add: Let_def)
    qed
  qed
next
  case (Cons d cs1)
  show ?case
  proof (cases "lookup fs (pre @ [d])")
    case None
    with Cons.prems have "mkdirs (fs_put fs (pre @ [d]) Dir) (pre @ [d]) (cs1 @ c # cs2) = Inr fs'"
      by (simp add: Let_def)
    from Cons.IH[OF this] show ?thesis by simp
  next
    case (Some nd)
    show ?thesis
    proof (cases nd)
      case Dir
      with Some Cons.prems have "mkdirs fs (pre @ [d]) (cs1 @ c # cs2) = Inr fs'"
        by (simp add: Let_def)
      from Cons.IH[OF this] show ?thesis by simp
    next
      case (File x)
      with Some Cons.prems show ?thesis by (simp add: Let_def)
    qed
  qed
qed

lemma mkdir_parents_ancestor_is_dir:
  assumes "mkdir_parents fs p = Inr fs'" and "below d p"
  shows "is_dir fs' d"
proof (cases "d = []")
  case True
  then show ?thesis by (simp add: is_dir_def lookup_root)
next
  case False
  from assms(2) have p: "p = d @ drop (length d) p" and ne: "drop (length d) p \<noteq> []"
    by (auto simp: below_def) (metis append_take_drop_id)
  from False have d: "d = butlast d @ [last d]" by simp
  from ne obtain x xs where x: "drop (length d) p = x # xs" by (cases "drop (length d) p") auto
  from p d x have "p = butlast d @ last d # (x # xs)" by (metis append.assoc append_Cons append_Nil)
  with assms(1) have "mkdirs fs [] (butlast d @ last d # (x # xs)) = Inr fs'"
    by (simp add: mkdir_parents_def)
  then have "is_dir fs' ([] @ butlast d @ [last d])" by (rule mkdirs_prefix_is_dir)
  with d show ?thesis by simp
qed

text \<open>C10. When the label directory exists and a class file cannot be read, the
  engine raises only after the output directory has been made and, when a backup
  is requested and no backup directory exists at that point, after the whole
  label directory has been copied into the backup directory; the file system it
  leaves holds both.\<close>

theorem class_file_error_after_writes:
  assumes "is_dir fs labels_dir"
      and "mkdir_parents fs out_dir = Inr fs1"
      and "fs2 = (if create_backup \<and> \<not> exists fs1 (backup_path labels_dir)
                  then copytree fs1 labels_dir (backup_path labels_dir) else fs1)"
      and "\<not> is_file fs2 old_classes_path \<or> \<not> is_file fs2 new_classes_path"
  shows "(\<exists>e. remap_by_name fs labels_dir out_dir old_classes_path new_classes_path create_backup
               = (fs2, Inl e))
         \<and> is_dir fs2 out_dir
         \<and> (create_backup \<and> \<not> exists fs1 (backup_path labels_dir) \<longrightarrow>
              is_dir fs2 (backup_path labels_dir) \<and>
              (\<forall>p n. below labels_dir p \<and> lookup fs1 p = Some n \<longrightarrow>
                 lookup fs2 (backup_path labels_dir @ drop (length labels_dir) p) = Some n))"
proof (intro conjI)
  from assms(1) have ld: "\<not> (\<not> exists fs labels_dir \<or> \<not> is_dir fs labels_dir)"
    by (simp add: exists_def is_dir_def)
  have eq: "remap_by_name fs labels_dir out_dir old_classes_path new_classes_path create_backup
              = remap_from_classes fs2 labels_dir out_dir old_classes_path new_classes_path"
    using ld assms(2) unfolding assms(3) by (simp add: remap_by_name_def Let_def)
  have rd: "\<And>p. \<not> is_file fs2 p \<Longrightarrow> \<exists>e. read_classes fs2 p = Inl e"
    by (auto simp: is_file_def read_classes_def split: option.splits node.splits)
  show "\<exists>e. remap_by_name fs labels_dir out_dir old_classes_path new_classes_path create_backup
               = (fs2, Inl e)"
  proof (cases "is_file fs2 old_classes_path")
    case False
    with rd obtain e where "read_classes fs2 old_classes_path = Inl e" by blast
    with eq show ?thesis by (simp add: remap_from_classes_def)
  next
    case True
    with assms(4) rd obtain e where e: "read_classes fs2 new_classes_path = Inl e" by blast
    from True obtain old where "read_classes fs2 old_classes_path = Inr old"
      by (auto simp: is_file_def read_classes_def split: option.splits node.splits)
    with e eq show ?thesis by (simp add: remap_from_classes_def)
  qed
next
  from assms(2) have o1: "is_dir fs1 out_dir" by (rule mkdir_parents_is_dir)
  show "is_dir fs2 out_dir"
  proof (cases "create_backup \<and> \<not> exists fs1 (backup_path labels_dir)")
    case False
    then have "fs2 = fs1" unfolding assms(3) by (rule if_not_P)
    with o1 show ?thesis by simp
  next
    case True
    then have f2: "fs2 = copytree fs1 labels_dir (backup_path labels_dir)"
      unfolding assms(3) by (rule if_P)
    from True o1 have ne: "out_dir \<noteq> backup_path labels_dir"
      by (auto simp: exists_def is_dir_def)
    have nb: "\<not> below (backup_path labels_dir) out_dir"
    proof
      assume "below (backup_path labels_dir) out_dir"
      with assms(2) have "is_dir fs1 (backup_path labels_dir)"
        by (rule mkdir_parents_ancestor_is_dir)
      with True show False by (simp add: exists_def is_dir_def)
    qed
    from ne nb have "lookup (copytree fs1 labels_dir (backup_path labels_dir)) out_dir
                       = lookup fs1 out_dir" by (rule copytree_frame)
    with o1 f2 show ?thesis by (simp add: is_dir_def)
  qed
next
  show "create_backup \<and> \<not> exists fs1 (backup_path labels_dir) \<longrightarrow>
              is_dir fs2 (backup_path labels_dir) \<and>
              (\<forall>p n. below labels_dir p \<and> lookup fs1 p = Some n \<longrightarrow>
                 lookup fs2 (backup_path labels_dir @ drop (length labels_dir) p) = Some n)"
  proof
    assume c: "create_backup \<and> \<not> exists fs1 (backup_path labels_dir)"
    then have f2: "fs2 = copytree fs1 labels_dir (backup_path labels_dir)"
      unfolding assms(3) by (rule if_P)
    show "is_dir fs2 (backup_path labels_dir) \<and>
              (\<forall>p n. below labels_dir p \<and> lookup fs1 p = Some n \<longrightarrow>
                 lookup fs2 (backup_path labels_dir @ drop (length labels_dir) p) = Some n)"
      unfolding f2 using copytree_is_dir copytree_copies by blast
  qed
qed

theorem class_file_error_after_writes_witness:
  "is_dir example_fs [''data'', ''labels'']
   \<and> mkdir_parents example_fs [''data'', ''out''] = Inr (([''data'', ''out''], Dir) # example_fs)
   \<and> \<not> is_file (copytree (([''data'', ''out''], Dir) # example_fs) [''data'', ''labels'']
                    [''data'', ''labels_backup'']) [''data'', ''missing.txt'']
   \<and> (\<exists>e. remap_by_name example_fs [''data'', ''labels''] [''data'', ''out'']
              [''data'', ''old.txt''] [''data'', ''missing.txt''] True
            = (copytree (([''data'', ''out''], Dir) # example_fs) [''data'', ''labels'']
                 [''data'', ''labels_backup''], Inl e))
   \<and> is_dir (copytree (([''data'', ''out''], Dir) # example_fs) [''data'', ''labels'']
               [''data'', ''labels_backup'']) [''data'', ''out'']
   \<and> is_dir (copytree (([''data'', ''out''], Dir) # example_fs) [''data'', ''labels'']
               [''data'', ''labels_backup'']) [''data'', ''labels_backup'']"
proof -
  have h1: "is_dir example_fs [''data'', ''labels'']" by code_simp
  have h2: "mkdir_parents example_fs [''data'', ''out''] = Inr (([''data'', ''out''], Dir) # example_fs)"
    by code_simp
  have b: "backup_path [''data'', ''labels''] = [''data'', ''labels_backup'']" by code_simp
  have nx: "\<not> exists (([''data'', ''out''], Dir) # example_fs) [''data'', ''labels_backup'']"
    by code_simp
  have h3: "copytree (([''data'', ''out''], Dir) # example_fs) [''data'', ''labels'']
                    [''data'', ''labels_backup'']
            = (if True \<and> \<not> exists (([''data'', ''out''], Dir) # example_fs)
                                  (backup_path [''data'', ''labels''])
               then copytree (([''data'', ''out''], Dir) # example_fs) [''data'', ''labels'']
                      (backup_path [''data'', ''labels''])
               else ([''data'', ''out''], Dir) # example_fs)"
    unfolding b using nx by simp
  have h4: "\<not> is_file (copytree (([''data'', ''out''], Dir) # example_fs) [''data'', ''labels'']
                    [''data'', ''labels_backup'']) [''data'', ''missing.txt'']"
    by code_simp
  note t = class_file_error_after_writes[OF h1 h2 h3 disjI2[OF h4], of "[''data'', ''old.txt'']"]
  from t have c1: "\<exists>e. remap_by_name example_fs [''data'', ''labels''] [''data'', ''out'']
              [''data'', ''old.txt''] [''data'', ''missing.txt''] True
            = (copytree (([''data'', ''out''], Dir) # example_fs) [''data'', ''labels'']
                 [''data'', ''labels_backup''], Inl e)"
    by (rule conjunct1)
  from t have c2: "is_dir (copytree (([''data'', ''out''], Dir) # example_fs) [''data'', ''labels'']
               [''data'', ''labels_backup'']) [''data'', ''out'']"
    by (rule conjunct1[OF conjunct2])
  from t nx have c3: "is_dir (copytree (([''data'', ''out''], Dir) # example_fs) [''data'', ''labels'']
               [''data'', ''labels_backup'']) [''data'', ''labels_backup'']"
    unfolding b by simp
  from h1 h2 h4 c1 c2 c3 show ?thesis by (intro conjI)
qed

subsection \<open>Reading back what was written\<close>

lemma digit_val_digit_char: "d < 10 \<Longrightarrow> digit_val (digit_char d) = d"
  by (simp add: digit_val_def digit_char_def ord_def)

lemma parse_digits_digits:
  "\<forall>c\<in>set ds. isdigit c \<Longrightarrow>
   parse_digits acc ds = Some (foldl (\<lambda>a c. 10 * a + digit_val c) acc ds)"
proof (induction ds arbitrary: acc)
  case Nil
  show ?case by simp
next
  case (Cons c ds)
  from Cons.prems have c: "isdigit c" and r: "\<forall>c\<in>set ds. isdigit c" by simp_all
  show ?case
  proof (cases ds)
    case Nil
    with c show ?thesis by simp
  next
    case (Cons d ds')
    with c have "parse_digits acc (c # ds) = parse_digits (10 * acc + digit_val c) ds" by simp
    with Cons.IH[OF r] show ?thesis by simp
  qed
qed

lemma foldl_str_nat: "foldl (\<lambda>a c. 10 * a + digit_val c) 0 (str_nat n) = n"
proof (induction n rule: str_nat.induct)
  case (1 n)
  show ?case
  proof (cases "n < 10")
    case True
    then show ?thesis by (simp add: str_nat.simps[of n] digit_val_digit_char)
  next
    case False
    with 1 have "foldl (\<lambda>a c. 10 * a + digit_val c) 0 (str_nat (n div 10)) = n div 10" by simp
    with False show ?thesis by (simp add: str_nat.simps[of n] digit_val_digit_char)
  qed
qed

lemma parse_unsigned_str_nat: "parse_unsigned (str_nat n) = Some n"
proof -
  obtain c cs where s: "str_nat n = c # cs" using str_nat_nonempty[of n] by (cases "str_nat n") auto
  from str_nat_digits[of n] s have c: "isdigit c" and r: "\<forall>c\<in>set cs. isdigit c" by simp_all
  have "parse_unsigned (c # cs) = parse_digits (digit_val c) cs" using c by (simp add: parse_unsigned_def)
  also have "\<dots> = Some (foldl (\<lambda>a c. 10 * a + digit_val c) (digit_val c) cs)"
    using r by (rule parse_digits_digits)
  also have "\<dots> = Some (foldl (\<lambda>a c. 10 * a + digit_val c) 0 (c # cs))" by simp
  finally show ?thesis using foldl_str_nat[of n] s by simp
qed

lemma strip_nospace: "\<forall>c\<in>set s. \<not> isspace c \<Longrightarrow> strip s = s"
proof -
  assume a: "\<forall>c\<in>set s. \<not> isspace c"
  have d: "\<And>t. \<forall>c\<in>set t. \<not> isspace c \<Longrightarrow> dropWhile isspace t = t"
  proof -
    fix t :: string assume "\<forall>c\<in>set t. \<not> isspace c"
    then show "dropWhile isspace t = t" by (cases t) simp_all
  qed
  from a have "dropWhile isspace s = s" by (rule d)
  moreover from a have "dropWhile isspace (rev s) = rev s" by (intro d) simp
  ultimately show ?thesis by (simp add: strip_def)
qed

lemma py_int_str: "py_int (str (int j)) = Some (int j)"
proof -
  obtain c cs where s: "str_nat j = c # cs" using str_nat_nonempty[of j] by (cases "str_nat j") auto
  from str_nat_digits[of j] s have c: "isdigit c" by simp
  have m: "\<not> isdigit CHR ''-''" and p: "\<not> isdigit CHR ''+''" by (simp_all add: isdigit_def ord_def)
  from c m p have cm: "c \<noteq> CHR ''-''" and cp: "c \<noteq> CHR ''+''" by auto
  have "\<forall>c\<in>set (str_nat j). \<not> isspace c" using str_nat_digits[of j] isdigit_not_space by blast
  then have "strip (str_nat j) = c # cs" using s by (simp add: strip_nospace)
  moreover have "parse_unsigned (c # cs) = Some j" using parse_unsigned_str_nat[of j] s by simp
  ultimately show ?thesis using cm cp by (simp add: py_int_def str_def)
qed

lemma linebreak_is_space: "is_linebreak c \<Longrightarrow> isspace c"
  by (auto simp: is_linebreak_def isspace_def)

lemma set_join: "c \<in> set (join sep xs) \<Longrightarrow> c \<in> set sep \<or> (\<exists>x\<in>set xs. c \<in> set x)"
  by (induction sep xs rule: join.induct) auto

lemma join_tokens_no_break:
  assumes "\<forall>t\<in>set toks. \<forall>c\<in>set t. \<not> isspace c"
  shows "\<forall>c\<in>set (join '' '' toks). \<not> is_linebreak c"
proof
  fix c assume "c \<in> set (join '' '' toks)"
  then have "c \<in> set '' '' \<or> (\<exists>x\<in>set toks. c \<in> set x)" by (rule set_join)
  then show "\<not> is_linebreak c"
  proof
    assume "c \<in> set '' ''"
    then show ?thesis by (simp add: is_linebreak_def ord_def)
  next
    assume "\<exists>x\<in>set toks. c \<in> set x"
    with assms have "\<not> isspace c" by blast
    then show ?thesis using linebreak_is_space by blast
  qed
qed

lemma universal_newlines_id: "CHR 0x0D \<notin> set s \<Longrightarrow> universal_newlines s = s"
proof (induction s rule: universal_newlines.induct)
  case 1
  show ?case by simp
next
  case (2 c)
  then have "c \<noteq> CHR 0x0D" by auto
  then show ?case by simp
next
  case (3 c d ds)
  from "3.prems" have c: "c \<noteq> CHR 0x0D" and r: "CHR 0x0D \<notin> set (d # ds)" by auto
  from "3.IH"(3)[OF c r] c show ?case by simp
qed

lemma splitlines_acc_line:
  "\<forall>c\<in>set l. \<not> is_linebreak c \<Longrightarrow>
   splitlines_acc cur (l @ CHR 0x0A # rest) = (cur @ l) # splitlines_acc [] rest"
proof (induction l arbitrary: cur)
  case Nil
  have lf: "is_linebreak (CHR 0x0A)" by (simp add: is_linebreak_def ord_def)
  show ?case
  proof (cases rest)
    case Nil
    with lf show ?thesis by simp
  next
    case (Cons d ds)
    with lf show ?thesis by simp
  qed
next
  case (Cons c l)
  from Cons.prems have c: "\<not> is_linebreak c" and r: "\<forall>c\<in>set l. \<not> is_linebreak c" by simp_all
  have cr: "is_linebreak (CHR 0x0D)" by (simp add: is_linebreak_def ord_def)
  with c have ncr: "c \<noteq> CHR 0x0D" by auto
  obtain d ds where t: "l @ CHR 0x0A # rest = d # ds" by (cases "l @ CHR 0x0A # rest") auto
  have "splitlines_acc cur (c # d # ds) = splitlines_acc (cur @ [c]) (d # ds)"
    using c ncr by simp
  then have "splitlines_acc cur ((c # l) @ CHR 0x0A # rest) = splitlines_acc (cur @ [c]) (l @ CHR 0x0A # rest)"
    using t by simp
  with Cons.IH[OF r, of "cur @ [c]"] show ?case by simp
qed

lemma out_text_concat: "out_text ls = concat (map (\<lambda>l. l @ [CHR 0x0A]) ls)"
proof -
  have "ls \<noteq> [] \<Longrightarrow> join [CHR 0x0A] ls @ [CHR 0x0A] = concat (map (\<lambda>l. l @ [CHR 0x0A]) ls)"
    by (induction "[CHR 0x0A]" ls rule: join.induct) simp_all
  then show ?thesis by (cases "ls = []") (simp_all add: out_text_def)
qed

lemma splitlines_out_text:
  "\<forall>l\<in>set ls. \<forall>c\<in>set l. \<not> is_linebreak c \<Longrightarrow> splitlines (out_text ls) = ls"
proof -
  assume a: "\<forall>l\<in>set ls. \<forall>c\<in>set l. \<not> is_linebreak c"
  then have "splitlines_acc [] (concat (map (\<lambda>l. l @ [CHR 0x0A]) ls)) = ls"
  proof (induction ls)
    case Nil
    show ?case by simp
  next
    case (Cons l ls)
    from Cons.prems have l: "\<forall>c\<in>set l. \<not> is_linebreak c" by simp
    from Cons.prems have "\<forall>l\<in>set ls. \<forall>c\<in>set l. \<not> is_linebreak c" by simp
    with Cons.IH have ih: "splitlines_acc [] (concat (map (\<lambda>l. l @ [CHR 0x0A]) ls)) = ls" by blast
    from splitlines_acc_line[OF l, of "[]" "concat (map (\<lambda>l. l @ [CHR 0x0A]) ls)"] ih
    show ?case by simp
  qed
  then show ?thesis by (simp add: splitlines_def out_text_concat)
qed

lemma out_text_no_cr:
  "\<forall>l\<in>set ls. \<forall>c\<in>set l. \<not> is_linebreak c \<Longrightarrow> CHR 0x0D \<notin> set (out_text ls)"
proof -
  assume a: "\<forall>l\<in>set ls. \<forall>c\<in>set l. \<not> is_linebreak c"
  have cr: "is_linebreak (CHR 0x0D)" by (simp add: is_linebreak_def ord_def)
  show ?thesis
  proof
    assume "CHR 0x0D \<in> set (out_text ls)"
    then have "CHR 0x0D \<in> set (concat (map (\<lambda>l. l @ [CHR 0x0A]) ls))"
      by (simp only: out_text_concat)
    then have "\<exists>l\<in>set ls. CHR 0x0D \<in> set (l @ [CHR 0x0A])"
      unfolding set_concat set_map by blast
    then obtain l where l: "l \<in> set ls" and "CHR 0x0D \<in> set (l @ [CHR 0x0A])"
      by blast
    then have "CHR 0x0D \<in> set l" by simp
    with a cr l show False by blast
  qed
qed

subsection \<open>Remapping what was remapped\<close>

lemma is_last_index_unique: "is_last_index xs nm a \<Longrightarrow> is_last_index xs nm b \<Longrightarrow> a = b"
proof (rule ccontr)
  assume a: "is_last_index xs nm a" and b: "is_last_index xs nm b" and ne: "a \<noteq> b"
  from ne consider "a < b" | "b < a" by linarith
  then show False
  proof cases
    case 1
    from a have "\<forall>k. a < k \<and> k < length xs \<longrightarrow> xs ! k \<noteq> nm" by (simp add: is_last_index_iff)
    moreover from b have "b < length xs" and "xs ! b = nm" by (simp_all add: is_last_index_iff)
    ultimately show False using 1 by blast
  next
    case 2
    from b have "\<forall>k. b < k \<and> k < length xs \<longrightarrow> xs ! k \<noteq> nm" by (simp add: is_last_index_iff)
    moreover from a have "a < length xs" and "xs ! a = nm" by (simp_all add: is_last_index_iff)
    ultimately show False using 2 by blast
  qed
qed

text \<open>A line as the engine writes it for position \<open>j\<close> of list \<open>xs\<close>, read by a
  pass whose old list is \<open>xs\<close> and whose new list is \<open>ys\<close>.\<close>

lemma remap_line_written:
  assumes j: "j < length xs"
      and q: "is_last_index ys (xs ! j) q"
      and t: "\<forall>t\<in>set toks. t \<noteq> [] \<and> (\<forall>c\<in>set t. \<not> isspace c)"
      and n: "4 \<le> length toks"
  shows "remap_line xs ys (join '' '' (str (int j) # toks))
           = (join '' '' (str (int q) # toks),
              join '' '' (str (int q) # toks) \<noteq> join '' '' (str (int j) # toks))"
    and "valid_line xs ys (join '' '' (str (int j) # toks))"
proof -
  let ?l = "join '' '' (str (int j) # toks)"
  have "\<forall>t\<in>set (str (int j) # toks). t \<noteq> [] \<and> (\<forall>c\<in>set t. \<not> isspace c)"
    using t str_nat_token[of j] by simp
  then have sp: "split ?l = str (int j) # toks" by (rule split_join)
  from q have "q < length ys" and "ys ! q = xs ! j" by (simp_all add: is_last_index_iff)
  then have m: "xs ! j \<in> set ys" by (metis nth_mem)
  show v: "valid_line xs ys ?l"
    using sp n j m by (simp add: valid_line_def py_int_str)
  from remap_line_valid[OF v] obtain i q' where
    i: "py_int (hd (split ?l)) = Some i" and q': "is_last_index ys (xs ! nat i) q'" and
    e: "remap_line xs ys ?l = (join '' '' (str (int q') # tl (split ?l)),
                                join '' '' (str (int q') # tl (split ?l)) \<noteq> ?l)"
    by blast
  from i sp have "i = int j" by (simp add: py_int_str)
  with q' have "is_last_index ys (xs ! j) q'" by simp
  with q have "q' = q" by (rule is_last_index_unique[rotated])
  with e sp show "remap_line xs ys ?l
           = (join '' '' (str (int q) # toks), join '' '' (str (int q) # toks) \<noteq> ?l)" by simp
qed

lemma written_line_plain:
  assumes t: "\<forall>t\<in>set toks. t \<noteq> [] \<and> (\<forall>c\<in>set t. \<not> isspace c)"
  shows "\<forall>c\<in>set (join '' '' (str (int j) # toks)). \<not> is_linebreak c"
proof (rule join_tokens_no_break)
  show "\<forall>t\<in>set (str (int j) # toks). \<forall>c\<in>set t. \<not> isspace c"
    using t str_nat_token[of j] by simp
qed

lemma no_break_rstrip: "\<forall>c\<in>set l. \<not> is_linebreak c \<Longrightarrow> rstrip_nl l = l"
proof -
  assume "\<forall>c\<in>set l. \<not> is_linebreak c"
  moreover have "is_linebreak (CHR 0x0A)" by (simp add: is_linebreak_def ord_def)
  ultimately have "CHR 0x0A \<notin> set l" by auto
  then show ?thesis by (rule rstrip_nl_id)
qed

text \<open>What the forward pass makes of a valid line.\<close>

lemma forward_line:
  assumes "valid_line old new raw"
  obtains i j where "py_int (hd (split raw)) = Some i" and "0 \<le> i" and "nat i < length old"
    and "is_last_index new (old ! nat i) j"
    and "fst (remap_line old new raw) = join '' '' (str (int j) # tl (split raw))"
    and "4 \<le> length (tl (split raw))"
proof -
  from remap_line_valid[OF assms] obtain i j where
    i: "py_int (hd (split raw)) = Some i" and j: "is_last_index new (old ! nat i) j" and
    e: "remap_line old new raw = (join '' '' (str (int j) # tl (split raw)),
                                   join '' '' (str (int j) # tl (split raw)) \<noteq> raw)"
    by blast
  from assms i have r: "0 \<le> i" "nat i < length old" and n: "4 \<le> length (tl (split raw))"
    by (auto simp: valid_line_def)
  from e have "fst (remap_line old new raw) = join '' '' (str (int j) # tl (split raw))" by simp
  with i r j n that show thesis by blast
qed

lemma second_pass_line:
  assumes "valid_line old new raw"
  shows "remap_line new new (fst (remap_line old new raw)) = (fst (remap_line old new raw), False)"
    and "strip (fst (remap_line old new raw)) \<noteq> []"
    and "\<forall>c\<in>set (fst (remap_line old new raw)). \<not> is_linebreak c"
proof -
  from assms obtain i j where
    j: "is_last_index new (old ! nat i) j" and
    e: "fst (remap_line old new raw) = join '' '' (str (int j) # tl (split raw))" and
    n: "4 \<le> length (tl (split raw))"
    by (rule forward_line)
  let ?l = "join '' '' (str (int j) # tl (split raw))"
  from j have jl: "j < length new" and nj: "new ! j = old ! nat i" by (simp_all add: is_last_index_iff)
  from j nj have q: "is_last_index new (new ! j) j" by simp
  note w = remap_line_written[OF jl q tl_split_tokens n]
  from w(1) have "remap_line new new ?l = (?l, False)" by simp
  with e show "remap_line new new (fst (remap_line old new raw)) = (fst (remap_line old new raw), False)"
    by simp
  from w(2) have "strip ?l \<noteq> []" by (rule valid_line_nonblank)
  with e show "strip (fst (remap_line old new raw)) \<noteq> []" by simp
  from written_line_plain[OF tl_split_tokens, of j raw] e
  show "\<forall>c\<in>set (fst (remap_line old new raw)). \<not> is_linebreak c" by simp
qed

lemma process_raw_blank: "strip (rstrip_nl raw) = [] \<Longrightarrow> process_raw old new (ol, st) raw = (ol, st)"
  by (simp add: process_raw_def)

lemma process_raw_nonblank:
  assumes "rstrip_nl raw = raw" and "strip raw \<noteq> []"
  shows "process_raw old new (ol, st) raw
           = (ol @ [fst (remap_line old new raw)],
              if snd (remap_line old new raw)
              then st\<lparr>lines := lines st + 1, changed := changed st + 1\<rparr>
              else st\<lparr>lines := lines st + 1, unchanged := unchanged st + 1\<rparr>)"
proof -
  obtain l ch where r: "remap_line old new raw = (l, ch)" by (cases "remap_line old new raw")
  with assms show ?thesis by (simp add: process_raw_def)
qed

lemma fst_foldl_process_raw:
  assumes "\<forall>raw\<in>set raws. rstrip_nl raw = raw"
  shows "fst (foldl (process_raw old new) (ol, st) raws)
           = ol @ map (\<lambda>r. fst (remap_line old new r)) (filter (\<lambda>r. strip r \<noteq> []) raws)"
  using assms
proof (induction raws arbitrary: ol st)
  case Nil
  show ?case by simp
next
  case (Cons raw raws)
  from Cons.prems have r: "rstrip_nl raw = raw" and rest: "\<forall>raw\<in>set raws. rstrip_nl raw = raw"
    by simp_all
  show ?case
  proof (cases "strip raw = []")
    case True
    with r have "process_raw old new (ol, st) raw = (ol, st)" by (simp add: process_raw_blank)
    with Cons.IH[OF rest, of ol st] True show ?thesis by simp
  next
    case False
    obtain st' where "process_raw old new (ol, st) raw = (ol @ [fst (remap_line old new raw)], st')"
      using process_raw_nonblank[OF r False] by simp
    with Cons.IH[OF rest, of "ol @ [fst (remap_line old new raw)]" st'] False show ?thesis by simp
  qed
qed

lemma foldl_process_raw_fixed:
  assumes "\<forall>l\<in>set ls. rstrip_nl l = l \<and> strip l \<noteq> [] \<and> remap_line xs ys l = (l, False)"
  shows "foldl (process_raw xs ys) (ol, st) ls
           = (ol @ ls, st\<lparr>lines := lines st + length ls, unchanged := unchanged st + length ls\<rparr>)"
  using assms
proof (induction ls arbitrary: ol st)
  case Nil
  show ?case by simp
next
  case (Cons l ls)
  from Cons.prems have l: "rstrip_nl l = l" "strip l \<noteq> []" "remap_line xs ys l = (l, False)"
    and rest: "\<forall>l\<in>set ls. rstrip_nl l = l \<and> strip l \<noteq> [] \<and> remap_line xs ys l = (l, False)"
    by simp_all
  from process_raw_nonblank[OF l(1) l(2), of xs ys ol st] l(3)
  have "process_raw xs ys (ol, st) l = (ol @ [l], st\<lparr>lines := lines st + 1, unchanged := unchanged st + 1\<rparr>)"
    by simp
  with Cons.IH[OF rest, of "ol @ [l]" "st\<lparr>lines := lines st + 1, unchanged := unchanged st + 1\<rparr>"]
  show ?case by simp
qed

text \<open>C7, as amended. For a line that satisfies the validity conditions under
  (old, new) and whose old index is the last position of its name in the old
  list (as every index is when the old list has no duplicate names), the line
  the forward pass emits is rewritten by the backward pass (new, old) to the
  original index, in decimal, followed by the original remaining tokens.\<close>

theorem backward_pass_restores_index:
  assumes "raw \<in> set (splitlines content)"
      and "valid_line old new raw"
      and "py_int (hd (split raw)) = Some i"
      and "is_last_index old (old ! nat i) (nat i)"
      and "fst (process_raw old new ([], st1) raw) = [l1]"
  shows "fst (process_raw new old (out_lines, st2) l1)
           = out_lines @ [join '' '' (str i # tl (split raw))]"
proof -
  from assms(1) have r: "rstrip_nl raw = raw" by (rule rstrip_nl_splitlines)
  from assms(2) have nb: "strip raw \<noteq> []" by (rule valid_line_nonblank)
  from process_raw_nonblank[OF r nb, of old new "[]" st1] assms(5)
  have l1: "l1 = fst (remap_line old new raw)" by simp
  from assms(2) obtain i' j where
    i': "py_int (hd (split raw)) = Some i'" and r0: "0 \<le> i'" and
    j: "is_last_index new (old ! nat i') j" and
    e: "fst (remap_line old new raw) = join '' '' (str (int j) # tl (split raw))" and
    n: "4 \<le> length (tl (split raw))"
    by (rule forward_line)
  from i' assms(3) have ii: "i' = i" by simp
  from j ii have jl: "j < length new" and nj: "new ! j = old ! nat i"
    by (simp_all add: is_last_index_iff)
  from assms(4) nj have q: "is_last_index old (new ! j) (nat i)" by simp
  note w = remap_line_written[OF jl q tl_split_tokens n]
  from r0 ii have "int (nat i) = i" by simp
  with w(1) e l1 have f: "fst (remap_line new old l1) = join '' '' (str i # tl (split raw))"
    by simp
  from w(2) e l1 have v: "valid_line new old l1" by simp
  then have nb1: "strip l1 \<noteq> []" by (rule valid_line_nonblank)
  from written_line_plain[OF tl_split_tokens, of j raw] e l1
  have "\<forall>c\<in>set l1. \<not> is_linebreak c" by simp
  then have r1: "rstrip_nl l1 = l1" by (rule no_break_rstrip)
  from process_raw_nonblank[OF r1 nb1, of new old out_lines st2] f show ?thesis by simp
qed

theorem backward_pass_restores_index_witness:
  "''+1  0.5 0.5 0.1 0.1'' \<in> set (splitlines ''+1  0.5 0.5 0.1 0.1'')
   \<and> valid_line [''cat'', ''dog'', ''cat''] [''dog'', ''bird'', ''dog''] ''+1  0.5 0.5 0.1 0.1''
   \<and> py_int (hd (split ''+1  0.5 0.5 0.1 0.1'')) = Some 1
   \<and> is_last_index [''cat'', ''dog'', ''cat''] ([''cat'', ''dog'', ''cat''] ! nat 1) (nat 1)
   \<and> fst (process_raw [''cat'', ''dog'', ''cat''] [''dog'', ''bird'', ''dog''] ([], stats0)
            ''+1  0.5 0.5 0.1 0.1'') = [''2 0.5 0.5 0.1 0.1'']
   \<and> fst (process_raw [''dog'', ''bird'', ''dog''] [''cat'', ''dog'', ''cat''] ([], stats0)
            ''2 0.5 0.5 0.1 0.1'') = [''1 0.5 0.5 0.1 0.1'']"
proof -
  have h1: "''+1  0.5 0.5 0.1 0.1'' \<in> set (splitlines ''+1  0.5 0.5 0.1 0.1'')" by code_simp
  have h2: "valid_line [''cat'', ''dog'', ''cat''] [''dog'', ''bird'', ''dog''] ''+1  0.5 0.5 0.1 0.1''"
    by code_simp
  have h3: "py_int (hd (split ''+1  0.5 0.5 0.1 0.1'')) = Some 1" by code_simp
  have h4: "is_last_index [''cat'', ''dog'', ''cat''] ([''cat'', ''dog'', ''cat''] ! nat 1) (nat 1)"
    by code_simp
  have h5: "fst (process_raw [''cat'', ''dog'', ''cat''] [''dog'', ''bird'', ''dog''] ([], stats0)
            ''+1  0.5 0.5 0.1 0.1'') = [''2 0.5 0.5 0.1 0.1'']"
    by code_simp
  have t: "join '' '' (str 1 # tl (split ''+1  0.5 0.5 0.1 0.1'')) = ''1 0.5 0.5 0.1 0.1''"
    by code_simp
  from backward_pass_restores_index[OF h1 h2 h3 h4 h5, of "[]" stats0] t
  have "fst (process_raw [''dog'', ''bird'', ''dog''] [''cat'', ''dog'', ''cat''] ([], stats0)
            ''2 0.5 0.5 0.1 0.1'') = [''1 0.5 0.5 0.1 0.1'']"
    by simp
  with h1 h2 h3 h4 h5 show ?thesis by (intro conjI)
qed

text \<open>The claim as stated fails when the old list repeats a name: old and new
  have the same names, the forward pass changes the line with index 0, and the
  backward pass gives it index 1, the last position of that name in the old
  list.\<close>

theorem backward_pass_picks_last_duplicate:
  "set [''a'', ''a'', ''b''] = set [''b'', ''a'']
   \<and> process_raw [''a'', ''a'', ''b''] [''b'', ''a''] ([], stats0) ''0 1 2 3 4''
       = ([''1 1 2 3 4''], \<lparr>files = 0, lines = 1, changed = 1, unchanged = 0\<rparr>)
   \<and> fst (process_raw [''b'', ''a''] [''a'', ''a'', ''b''] ([], stats0) ''1 1 2 3 4'')
       = [''1 1 2 3 4'']"
  by code_simp

subsection \<open>What a run reads, counts and writes\<close>

lemma foldl_process_raw_counts:
  assumes "\<forall>raw\<in>set raws. rstrip_nl raw = raw"
  shows "files (snd (foldl (process_raw old new) (ol, st) raws)) = files st
       \<and> lines (snd (foldl (process_raw old new) (ol, st) raws))
           = lines st + length [raw \<leftarrow> raws. strip raw \<noteq> []]
       \<and> changed (snd (foldl (process_raw old new) (ol, st) raws))
           = changed st + length [raw \<leftarrow> [raw \<leftarrow> raws. strip raw \<noteq> []]. snd (remap_line old new raw)]"
  using assms
proof (induction raws arbitrary: ol st)
  case Nil
  show ?case by simp
next
  case (Cons raw raws)
  from Cons.prems have r: "rstrip_nl raw = raw" and rest: "\<forall>raw\<in>set raws. rstrip_nl raw = raw"
    by simp_all
  show ?case
  proof (cases "strip raw = []")
    case True
    with r have "process_raw old new (ol, st) raw = (ol, st)" by (simp add: process_raw_blank)
    with Cons.IH[OF rest, of ol st] True show ?thesis by simp
  next
    case False
    show ?thesis
    proof (cases "snd (remap_line old new raw)")
      case T: True
      with process_raw_nonblank[OF r False, of old new ol st]
      have "process_raw old new (ol, st) raw
              = (ol @ [fst (remap_line old new raw)],
                 st\<lparr>lines := lines st + 1, changed := changed st + 1\<rparr>)" by simp
      with Cons.IH[OF rest, of "ol @ [fst (remap_line old new raw)]"
                     "st\<lparr>lines := lines st + 1, changed := changed st + 1\<rparr>"] False T
      show ?thesis by simp
    next
      case F: False
      with process_raw_nonblank[OF r False, of old new ol st]
      have "process_raw old new (ol, st) raw
              = (ol @ [fst (remap_line old new raw)],
                 st\<lparr>lines := lines st + 1, unchanged := unchanged st + 1\<rparr>)" by simp
      with Cons.IH[OF rest, of "ol @ [fst (remap_line old new raw)]"
                     "st\<lparr>lines := lines st + 1, unchanged := unchanged st + 1\<rparr>"] False F
      show ?thesis by simp
    qed
  qed
qed

lemma process_content_result:
  assumes "process_content old new st content = (ol, st')"
  shows "ol = map (\<lambda>r. fst (remap_line old new r)) (nonblank_lines content)"
    and "files st' = files st"
    and "lines st' = lines st + length (nonblank_lines content)"
    and "changed st' = changed st
           + length [raw \<leftarrow> nonblank_lines content. snd (remap_line old new raw)]"
proof -
  have rs: "\<forall>raw\<in>set (splitlines content). rstrip_nl raw = raw"
    using rstrip_nl_splitlines by blast
  from assms have f: "foldl (process_raw old new) ([], st) (splitlines content) = (ol, st')"
    by (simp add: process_content_def)
  from fst_foldl_process_raw[OF rs, of old new "[]" st] f
  show "ol = map (\<lambda>r. fst (remap_line old new r)) (nonblank_lines content)"
    by (simp add: nonblank_lines_def)
  from foldl_process_raw_counts[OF rs, of old new "[]" st] f
  show "files st' = files st"
    and "lines st' = lines st + length (nonblank_lines content)"
    and "changed st' = changed st
           + length [raw \<leftarrow> nonblank_lines content. snd (remap_line old new raw)]"
    by (simp_all add: nonblank_lines_def)
qed

lemma is_label_file_lookup: "lookup fs1 g = lookup fs g \<Longrightarrow> is_label_file fs1 g = is_label_file fs g"
  by (simp add: is_label_file_def is_file_def)

lemma read_text_lookup: "lookup fs1 g = lookup fs g \<Longrightarrow> read_text fs1 g = read_text fs g"
  by (simp add: read_text_def)

lemma sibling_not_written:
  assumes "g \<noteq> []" and "butlast g = L" and "f \<noteq> []" and "butlast f = L" and "g \<noteq> f"
  shows "g \<noteq> out_dir @ [name f]"
proof
  assume e: "g = out_dir @ [name f]"
  from assms(3) have nf: "name f = last f" by (simp add: name_def)
  from e have "butlast g = out_dir" and "last g = name f" by simp_all
  with assms(2) nf have "butlast g = butlast f \<or> True" and lg: "last g = last f" by simp_all
  from e assms(2) have "out_dir = L" by simp
  with assms(4) e nf have "g = butlast f @ [last f]" by simp
  with assms(3) have "g = f" by simp
  with assms(5) show False by simp
qed

lemma remap_files_run:
  assumes "distinct fl" and "\<forall>f\<in>set fl. f \<noteq> [] \<and> butlast f = L"
      and "remap_files old new out_dir fs st fl = (fs', Inr st')"
  shows "files st' = files st + length [f \<leftarrow> fl. is_label_file fs f]
       \<and> lines st' = lines st
           + (\<Sum>f \<leftarrow> [f \<leftarrow> fl. is_label_file fs f]. length (nonblank_lines (read_text fs f)))
       \<and> changed st' = changed st
           + (\<Sum>f \<leftarrow> [f \<leftarrow> fl. is_label_file fs f].
                length [raw \<leftarrow> nonblank_lines (read_text fs f). snd (remap_line old new raw)])
       \<and> (\<forall>f\<in>set fl. is_label_file fs f \<longrightarrow>
             lookup fs' (out_dir @ [name f])
               = Some (File (out_text (map (\<lambda>r. fst (remap_line old new r))
                                          (nonblank_lines (read_text fs f))))))
       \<and> (\<forall>q. (\<forall>f\<in>set fl. is_label_file fs f \<longrightarrow> q \<noteq> out_dir @ [name f])
             \<longrightarrow> lookup fs' q = lookup fs q)"
  using assms
proof (induction fl arbitrary: fs st)
  case Nil
  then show ?case by simp
next
  case (Cons f rest)
  from Cons.prems(1) have dr: "distinct rest" and fr: "f \<notin> set rest" by simp_all
  from Cons.prems(2) have f0: "f \<noteq> []" "butlast f = L"
    and pr: "\<forall>g\<in>set rest. g \<noteq> [] \<and> butlast g = L" by simp_all
  show ?case
  proof (cases "is_label_file fs f")
    case False
    then have "\<not> is_file fs f \<or> lower (suffix (name f)) \<noteq> ''.txt''"
      by (simp add: is_label_file_def)
    with Cons.prems(3) have "remap_files old new out_dir fs st rest = (fs', Inr st')" by simp
    from Cons.IH[OF dr pr this] False show ?thesis by simp
  next
    case True
    then have g: "\<not> (\<not> is_file fs f \<or> lower (suffix (name f)) \<noteq> ''.txt'')"
      by (simp add: is_label_file_def)
    obtain ol st2 where pc:
      "process_content old new (st\<lparr>files := files st + 1\<rparr>) (read_text fs f) = (ol, st2)"
      by (cases "process_content old new (st\<lparr>files := files st + 1\<rparr>) (read_text fs f)")
    note res = process_content_result[OF pc]
    show ?thesis
    proof (cases "write_text fs (out_dir @ [name f]) (out_text ol)")
      case (Inl e)
      with g pc Cons.prems(3) show ?thesis by (simp add: Let_def)
    next
      case (Inr fs1)
      with g pc Cons.prems(3) have rr: "remap_files old new out_dir fs1 st2 rest = (fs', Inr st')"
        by (simp add: Let_def)
      from Inr have fs1: "fs1 = fs_put fs (out_dir @ [name f]) (File (out_text ol))"
        by (simp add: write_text_def split: option.splits node.splits)
      have same: "\<And>q. q \<noteq> out_dir @ [name f] \<Longrightarrow> lookup fs1 q = lookup fs q"
        unfolding fs1 by (rule lookup_fs_put_other)
      have wr: "lookup fs1 (out_dir @ [name f]) = Some (File (out_text ol))"
        unfolding fs1 by (rule lookup_fs_put_same) simp
      have sib: "\<And>g. g \<in> set rest \<Longrightarrow> lookup fs1 g = lookup fs g"
      proof -
        fix g assume gin: "g \<in> set rest"
        with pr have g0: "g \<noteq> []" "butlast g = L" by simp_all
        from gin fr have "g \<noteq> f" by auto
        with g0 f0 have "g \<noteq> out_dir @ [name f]" by (intro sibling_not_written)
        then show "lookup fs1 g = lookup fs g" by (rule same)
      qed
      have lf: "\<And>g. g \<in> set rest \<Longrightarrow> is_label_file fs1 g = is_label_file fs g"
        using sib by (intro is_label_file_lookup)
      have rt: "\<And>g. g \<in> set rest \<Longrightarrow> read_text fs1 g = read_text fs g"
        using sib by (intro read_text_lookup)
      have flt: "[g \<leftarrow> rest. is_label_file fs1 g] = [g \<leftarrow> rest. is_label_file fs g]"
        using lf by (intro filter_cong) simp_all
      have s1: "(\<Sum>g \<leftarrow> [g \<leftarrow> rest. is_label_file fs g]. length (nonblank_lines (read_text fs1 g)))
              = (\<Sum>g \<leftarrow> [g \<leftarrow> rest. is_label_file fs g]. length (nonblank_lines (read_text fs g)))"
        using rt by (intro arg_cong[where f = sum_list] map_cong) simp_all
      have s2: "(\<Sum>g \<leftarrow> [g \<leftarrow> rest. is_label_file fs g].
                   length [raw \<leftarrow> nonblank_lines (read_text fs1 g). snd (remap_line old new raw)])
              = (\<Sum>g \<leftarrow> [g \<leftarrow> rest. is_label_file fs g].
                   length [raw \<leftarrow> nonblank_lines (read_text fs g). snd (remap_line old new raw)])"
        using rt by (intro arg_cong[where f = sum_list] map_cong) simp_all
      note ih = Cons.IH[OF dr pr rr, unfolded flt s1 s2]
      from ih have c1: "files st' = files st2 + length [g \<leftarrow> rest. is_label_file fs g]" by blast
      from ih have c2: "lines st' = lines st2
           + (\<Sum>g \<leftarrow> [g \<leftarrow> rest. is_label_file fs g]. length (nonblank_lines (read_text fs g)))"
        by blast
      from ih have c3: "changed st' = changed st2
           + (\<Sum>g \<leftarrow> [g \<leftarrow> rest. is_label_file fs g].
                length [raw \<leftarrow> nonblank_lines (read_text fs g). snd (remap_line old new raw)])"
        by blast
      from ih have c4: "\<forall>g\<in>set rest. is_label_file fs1 g \<longrightarrow>
             lookup fs' (out_dir @ [name g])
               = Some (File (out_text (map (\<lambda>r. fst (remap_line old new r))
                                          (nonblank_lines (read_text fs1 g)))))"
        by blast
      from ih have c5: "\<forall>q. (\<forall>g\<in>set rest. is_label_file fs1 g \<longrightarrow> q \<noteq> out_dir @ [name g])
             \<longrightarrow> lookup fs' q = lookup fs1 q"
        by blast
      have names: "\<And>g. g \<in> set rest \<Longrightarrow> out_dir @ [name f] \<noteq> out_dir @ [name g]"
      proof -
        fix g assume gin: "g \<in> set rest"
        with pr have g0: "g \<noteq> []" "butlast g = L" by simp_all
        from gin fr have ne: "g \<noteq> f" by auto
        show "out_dir @ [name f] \<noteq> out_dir @ [name g]"
        proof
          assume "out_dir @ [name f] = out_dir @ [name g]"
          then have "last f = last g" using f0 g0 by (simp add: name_def)
          with f0 g0 have "butlast f @ [last f] = butlast g @ [last g]" by simp
          moreover from f0(1) have "butlast f @ [last f] = f" by simp
          moreover from g0(1) have "butlast g @ [last g] = g" by simp
          ultimately have "f = g" by simp
          with ne show False by simp
        qed
      qed
      have d1: "files st' = files st + length [g \<leftarrow> f # rest. is_label_file fs g]"
        using c1 res(2) True by simp
      have d2: "lines st' = lines st
           + (\<Sum>g \<leftarrow> [g \<leftarrow> f # rest. is_label_file fs g]. length (nonblank_lines (read_text fs g)))"
        using c2 res(3) True by simp
      have d3: "changed st' = changed st
           + (\<Sum>g \<leftarrow> [g \<leftarrow> f # rest. is_label_file fs g].
                length [raw \<leftarrow> nonblank_lines (read_text fs g). snd (remap_line old new raw)])"
        using c3 res(4) True by simp
      have d4: "\<forall>g\<in>set (f # rest). is_label_file fs g \<longrightarrow>
             lookup fs' (out_dir @ [name g])
               = Some (File (out_text (map (\<lambda>r. fst (remap_line old new r))
                                          (nonblank_lines (read_text fs g)))))"
      proof (intro ballI impI)
        fix g assume gin: "g \<in> set (f # rest)" and gl: "is_label_file fs g"
        show "lookup fs' (out_dir @ [name g])
               = Some (File (out_text (map (\<lambda>r. fst (remap_line old new r))
                                          (nonblank_lines (read_text fs g)))))"
        proof (cases "g = f")
          case True
          have "\<forall>h\<in>set rest. is_label_file fs1 h \<longrightarrow> out_dir @ [name f] \<noteq> out_dir @ [name h]"
            using names by blast
          with c5 have "lookup fs' (out_dir @ [name f]) = lookup fs1 (out_dir @ [name f])" by blast
          with wr res(1) True show ?thesis by simp
        next
          case False
          with gin have gr: "g \<in> set rest" by simp
          with gl lf have "is_label_file fs1 g" by simp
          with c4 gr have "lookup fs' (out_dir @ [name g])
               = Some (File (out_text (map (\<lambda>r. fst (remap_line old new r))
                                          (nonblank_lines (read_text fs1 g)))))" by blast
          with rt[OF gr] show ?thesis by simp
        qed
      qed
      have d5: "\<forall>q. (\<forall>g\<in>set (f # rest). is_label_file fs g \<longrightarrow> q \<noteq> out_dir @ [name g])
             \<longrightarrow> lookup fs' q = lookup fs q"
      proof (intro allI impI)
        fix q assume a: "\<forall>g\<in>set (f # rest). is_label_file fs g \<longrightarrow> q \<noteq> out_dir @ [name g]"
        with True have qf: "q \<noteq> out_dir @ [name f]" by simp
        from a lf have "\<forall>g\<in>set rest. is_label_file fs1 g \<longrightarrow> q \<noteq> out_dir @ [name g]" by simp
        with c5 have "lookup fs' q = lookup fs1 q" by blast
        with same[OF qf] show "lookup fs' q = lookup fs q" by simp
      qed
      from d1 d2 d3 d4 d5 show ?thesis by (intro conjI)
    qed
  qed
qed

subsection \<open>The file system in which a run reads\<close>

lemma remap_by_name_prepare:
  "remap_by_name fs labels_dir out_dir op np b =
     (case prepare fs labels_dir out_dir b of
        Inl e \<Rightarrow> (fs, Inl e)
      | Inr fs2 \<Rightarrow> remap_from_classes fs2 labels_dir out_dir op np)"
  by (simp add: remap_by_name_def prepare_def Let_def split: sum.splits)

lemma mkdirs_adds_dirs:
  "mkdirs fs pre cs = Inr fs' \<Longrightarrow>
   lookup fs' q = lookup fs q \<or>
   (lookup fs q = None \<and> lookup fs' q = Some Dir \<and> take (length q) (pre @ cs) = q)"
proof (induction cs arbitrary: fs pre)
  case Nil
  then show ?case by simp
next
  case (Cons c cs)
  have e: "(pre @ [c]) @ cs = pre @ c # cs" by simp
  show ?case
  proof (cases "lookup fs (pre @ [c])")
    case None
    with Cons.prems have m: "mkdirs (fs_put fs (pre @ [c]) Dir) (pre @ [c]) cs = Inr fs'"
      by (simp add: Let_def)
    note ih = Cons.IH[OF m, unfolded e]
    show ?thesis
    proof (cases "q = pre @ [c]")
      case True
      have "lookup (fs_put fs (pre @ [c]) Dir) (pre @ [c]) = Some Dir"
        by (simp add: lookup_fs_put_same)
      with m have "lookup fs' (pre @ [c]) = Some Dir" by (rule mkdirs_keeps)
      with True None show ?thesis by simp
    next
      case False
      then have "lookup (fs_put fs (pre @ [c]) Dir) q = lookup fs q" by (rule lookup_fs_put_other)
      with ih show ?thesis by simp
    qed
  next
    case (Some nd)
    show ?thesis
    proof (cases nd)
      case Dir
      with Some Cons.prems have m: "mkdirs fs (pre @ [c]) cs = Inr fs'" by (simp add: Let_def)
      from Cons.IH[OF m, unfolded e] show ?thesis .
    next
      case (File x)
      with Some Cons.prems show ?thesis by (simp add: Let_def)
    qed
  qed
qed

lemma prepare_frame:
  assumes p: "prepare fs labels_dir out_dir b = Inr fs2"
      and q: "\<not> b \<or> exists fs (backup_path labels_dir)
              \<or> (q \<noteq> backup_path labels_dir \<and> \<not> below (backup_path labels_dir) q)"
  shows "lookup fs2 q = lookup fs q \<or>
         (lookup fs q = None \<and> lookup fs2 q = Some Dir \<and> take (length q) out_dir = q)"
proof -
  from p obtain fs1 where m: "mkdir_parents fs out_dir = Inr fs1"
    and f2: "fs2 = (if b \<and> \<not> exists fs1 (backup_path labels_dir)
                    then copytree fs1 labels_dir (backup_path labels_dir) else fs1)"
    by (auto simp: prepare_def Let_def split: if_splits sum.splits)
  from m have a: "lookup fs1 q = lookup fs q \<or>
         (lookup fs q = None \<and> lookup fs1 q = Some Dir \<and> take (length q) out_dir = q)"
    using mkdirs_adds_dirs[of fs "[]" out_dir fs1 q] by (simp add: mkdir_parents_def)
  show ?thesis
  proof (cases "b \<and> \<not> exists fs1 (backup_path labels_dir)")
    case True
    have nx: "\<not> exists fs (backup_path labels_dir)"
    proof
      assume "exists fs (backup_path labels_dir)"
      then obtain nd where "lookup fs (backup_path labels_dir) = Some nd"
        by (auto simp: exists_def)
      with m have "lookup fs1 (backup_path labels_dir) = Some nd" by (rule mkdir_parents_keeps)
      with True show False by (simp add: exists_def)
    qed
    with q True have "q \<noteq> backup_path labels_dir" and "\<not> below (backup_path labels_dir) q"
      by simp_all
    then have "lookup (copytree fs1 labels_dir (backup_path labels_dir)) q = lookup fs1 q"
      by (rule copytree_frame)
    moreover from True have "fs2 = copytree fs1 labels_dir (backup_path labels_dir)"
      unfolding f2 by (rule if_P)
    ultimately show ?thesis using a by simp
  next
    case False
    then have "fs2 = fs1" unfolding f2 by (rule if_not_P)
    with a show ?thesis by simp
  qed
qed

lemma prepare_child:
  assumes p: "prepare fs labels_dir out_dir b = Inr fs2"
      and q: "q \<noteq> []" "butlast q = labels_dir"
  shows "lookup fs2 q = lookup fs q \<or> (lookup fs q = None \<and> lookup fs2 q = Some Dir)"
proof (cases "q = backup_path labels_dir")
  case False
  from q have "labels_dir @ [last q] = q" by auto
  with not_below_backup[of labels_dir "last q"] have "\<not> below (backup_path labels_dir) q" by simp
  with False prepare_frame[OF p, of q] show ?thesis by blast
next
  case True
  from p obtain fs1 where m: "mkdir_parents fs out_dir = Inr fs1"
    and f2: "fs2 = (if b \<and> \<not> exists fs1 (backup_path labels_dir)
                    then copytree fs1 labels_dir (backup_path labels_dir) else fs1)"
    by (auto simp: prepare_def Let_def split: if_splits sum.splits)
  show ?thesis
  proof (cases "b \<and> \<not> exists fs1 (backup_path labels_dir)")
    case c: True
    then have "fs2 = copytree fs1 labels_dir (backup_path labels_dir)"
      unfolding f2 by (rule if_P)
    with copytree_is_dir[of fs1 labels_dir "backup_path labels_dir"] True
    have d: "lookup fs2 q = Some Dir" by (simp add: is_dir_def)
    have "lookup fs q = None"
    proof (cases "lookup fs q")
      case None
      then show ?thesis .
    next
      case (Some nd)
      with m have "lookup fs1 q = Some nd" by (rule mkdir_parents_keeps)
      with c True show ?thesis by (simp add: exists_def)
    qed
    with d show ?thesis by simp
  next
    case False
    then have "fs2 = fs1" unfolding f2 by (rule if_not_P)
    moreover from m have "lookup fs1 q = lookup fs q \<or>
         (lookup fs q = None \<and> lookup fs1 q = Some Dir \<and> take (length q) out_dir = q)"
      using mkdirs_adds_dirs[of fs "[]" out_dir fs1 q] by (simp add: mkdir_parents_def)
    ultimately show ?thesis by blast
  qed
qed

lemma is_label_file_content:
  "is_label_file fs f \<Longrightarrow> \<exists>c. lookup fs f = Some (File c)"
  by (auto simp: is_label_file_def is_file_def split: option.splits node.splits)

lemma prepare_label_file:
  assumes p: "prepare fs labels_dir out_dir b = Inr fs2"
      and q: "q \<noteq> []" "butlast q = labels_dir"
  shows "is_label_file fs2 q = is_label_file fs q"
    and "is_label_file fs q \<Longrightarrow> lookup fs2 q = lookup fs q"
proof -
  note c = prepare_child[OF p q]
  from c show "is_label_file fs2 q = is_label_file fs q"
    by (auto simp: is_label_file_def is_file_def)
  assume "is_label_file fs q"
  then obtain t where "lookup fs q = Some (File t)" using is_label_file_content by blast
  with c show "lookup fs2 q = lookup fs q" by auto
qed

lemma mem_iterdir:
  "q \<in> set (iterdir fs d) \<longleftrightarrow> q \<noteq> [] \<and> butlast q = d \<and> q \<in> fst ` set fs"
  by (force simp: iterdir_def image_iff)

lemma set_label_files:
  "set (label_files fs d) = {q. q \<noteq> [] \<and> butlast q = d \<and> is_label_file fs q}"
proof -
  have "\<And>q. is_label_file fs q \<Longrightarrow> q \<noteq> [] \<and> q \<in> fst ` set fs"
  proof -
    fix q assume "is_label_file fs q"
    then obtain c where l: "lookup fs q = Some (File c)" using is_label_file_content by blast
    then have ne: "q \<noteq> []" by (auto simp: lookup_root)
    with l have "map_of fs q = Some (File c)" by (simp add: lookup_def)
    then have "(q, File c) \<in> set fs" by (rule map_of_SomeD)
    then have "q \<in> fst ` set fs" by force
    with ne show "q \<noteq> [] \<and> q \<in> fst ` set fs" by simp
  qed
  then show ?thesis by (auto simp: label_files_def mem_iterdir)
qed

lemma sorted_distinct_label_files:
  "sorted (label_files fs d) \<and> distinct (label_files fs d)"
  by (simp add: label_files_def iterdir_def sorted_wrt_filter)

lemma prepare_label_files:
  assumes p: "prepare fs labels_dir out_dir b = Inr fs2"
  shows "label_files fs2 labels_dir = label_files fs labels_dir"
proof -
  have "set (label_files fs2 labels_dir) = set (label_files fs labels_dir)"
    using prepare_label_file(1)[OF p] by (auto simp: set_label_files)
  then show ?thesis
    using sorted_distinct_label_files[of fs2 labels_dir] sorted_distinct_label_files[of fs labels_dir]
    by (intro sorted_distinct_set_unique) simp_all
qed

lemma prepare_read_text:
  assumes p: "prepare fs labels_dir out_dir b = Inr fs2"
      and f: "f \<in> set (label_files fs labels_dir)"
  shows "read_text fs2 f = read_text fs f"
proof -
  from f have "f \<noteq> []" "butlast f = labels_dir" "is_label_file fs f"
    by (simp_all add: set_label_files)
  from prepare_label_file(2)[OF p this] show ?thesis by (rule read_text_lookup)
qed

lemma sum_filter_both:
  "(\<Sum>f \<leftarrow> xs. length [r \<leftarrow> g f. P r]) + (\<Sum>f \<leftarrow> xs. length [r \<leftarrow> g f. \<not> P r])
     = (\<Sum>f \<leftarrow> xs. length (g f))"
proof (induction xs)
  case Nil
  show ?case by simp
next
  case (Cons a xs)
  have "length [r \<leftarrow> g a. P r] + length [r \<leftarrow> g a. \<not> P r] = length (g a)"
    by (rule sum_length_filter_compl)
  with Cons show ?case by simp
qed

lemma remap_from_classes_counts:
  assumes r: "remap_from_classes fs2 labels_dir out_dir op np = (fs', Inr st)"
  shows "\<exists>old new. read_classes fs2 op = Inr old \<and> read_classes fs2 np = Inr new
       \<and> files st = length (label_files fs2 labels_dir)
       \<and> lines st = (\<Sum>f \<leftarrow> label_files fs2 labels_dir. length (nonblank_lines (read_text fs2 f)))
       \<and> changed st = (\<Sum>f \<leftarrow> label_files fs2 labels_dir.
                          length [raw \<leftarrow> nonblank_lines (read_text fs2 f). snd (remap_line old new raw)])
       \<and> lines st = changed st + unchanged st"
proof -
  from r obtain old new fs3 where o: "read_classes fs2 op = Inr old"
    and n: "read_classes fs2 np = Inr new"
    and rf: "remap_files old new out_dir fs2 stats0 (sort (iterdir fs2 labels_dir)) = (fs3, Inr st)"
    unfolding remap_from_classes_def by (auto split: sum.splits prod.splits)
  have d: "distinct (sort (iterdir fs2 labels_dir))" by (simp add: iterdir_def)
  have c: "\<forall>f\<in>set (sort (iterdir fs2 labels_dir)). f \<noteq> [] \<and> butlast f = labels_dir"
    by (simp add: mem_iterdir)
  note run = remap_files_run[OF d c rf, folded label_files_def]
  have "counted stats0" by (simp add: counted_def stats0_def)
  then have "counted st" using rf by (rule remap_files_counted)
  then have k: "lines st = changed st + unchanged st" by (simp add: counted_def)
  from run have "files st = length (label_files fs2 labels_dir)"
    and "lines st = (\<Sum>f \<leftarrow> label_files fs2 labels_dir. length (nonblank_lines (read_text fs2 f)))"
    and "changed st = (\<Sum>f \<leftarrow> label_files fs2 labels_dir.
                          length [raw \<leftarrow> nonblank_lines (read_text fs2 f). snd (remap_line old new raw)])"
    by (simp_all add: stats0_def)
  with o n k show ?thesis by blast
qed

subsection \<open>The counters of a run\<close>

text \<open>C9. For every completed run, with \<open>old\<close> and \<open>new\<close> the class lists the run
  read (after lines 42 to 52): \<open>files\<close> is the number of label files of the label
  directory, \<open>lines\<close> is the number of non-blank lines of these files, \<open>changed\<close>
  is the number of those lines that the loop body rewrites to a different text,
  \<open>unchanged\<close> is the number of the other non-blank lines, and so
  lines = changed + unchanged.\<close>

theorem counters_count_label_lines:
  assumes "remap_by_name fs labels_dir out_dir old_classes_path new_classes_path create_backup
             = (fs', Inr st)"
  shows "\<exists>fs2 old new.
           prepare fs labels_dir out_dir create_backup = Inr fs2
         \<and> read_classes fs2 old_classes_path = Inr old
         \<and> read_classes fs2 new_classes_path = Inr new
         \<and> files st = length (label_files fs labels_dir)
         \<and> lines st = (\<Sum>f \<leftarrow> label_files fs labels_dir. length (nonblank_lines (read_text fs f)))
         \<and> changed st = (\<Sum>f \<leftarrow> label_files fs labels_dir.
                            length [raw \<leftarrow> nonblank_lines (read_text fs f). snd (remap_line old new raw)])
         \<and> unchanged st = (\<Sum>f \<leftarrow> label_files fs labels_dir.
                            length [raw \<leftarrow> nonblank_lines (read_text fs f). \<not> snd (remap_line old new raw)])
         \<and> lines st = changed st + unchanged st"
proof -
  from assms obtain fs2 where p: "prepare fs labels_dir out_dir create_backup = Inr fs2"
    and r: "remap_from_classes fs2 labels_dir out_dir old_classes_path new_classes_path = (fs', Inr st)"
    by (auto simp: remap_by_name_prepare split: sum.splits)
  from remap_from_classes_counts[OF r] obtain old new where
        o: "read_classes fs2 old_classes_path = Inr old"
    and n: "read_classes fs2 new_classes_path = Inr new"
    and c1: "files st = length (label_files fs2 labels_dir)"
    and c2: "lines st = (\<Sum>f \<leftarrow> label_files fs2 labels_dir. length (nonblank_lines (read_text fs2 f)))"
    and c3: "changed st = (\<Sum>f \<leftarrow> label_files fs2 labels_dir.
                          length [raw \<leftarrow> nonblank_lines (read_text fs2 f). snd (remap_line old new raw)])"
    and c4: "lines st = changed st + unchanged st"
    by blast
  note lf = prepare_label_files[OF p]
  have s2: "(\<Sum>f \<leftarrow> label_files fs labels_dir. length (nonblank_lines (read_text fs2 f)))
          = (\<Sum>f \<leftarrow> label_files fs labels_dir. length (nonblank_lines (read_text fs f)))"
    using prepare_read_text[OF p] by (intro arg_cong[where f = sum_list] map_cong) simp_all
  have s3: "(\<Sum>f \<leftarrow> label_files fs labels_dir.
               length [raw \<leftarrow> nonblank_lines (read_text fs2 f). snd (remap_line old new raw)])
          = (\<Sum>f \<leftarrow> label_files fs labels_dir.
               length [raw \<leftarrow> nonblank_lines (read_text fs f). snd (remap_line old new raw)])"
    using prepare_read_text[OF p] by (intro arg_cong[where f = sum_list] map_cong) simp_all
  from c1 have d1: "files st = length (label_files fs labels_dir)" unfolding lf .
  from c2 have d2: "lines st = (\<Sum>f \<leftarrow> label_files fs labels_dir. length (nonblank_lines (read_text fs f)))"
    unfolding lf s2 .
  from c3 have d3: "changed st = (\<Sum>f \<leftarrow> label_files fs labels_dir.
                     length [raw \<leftarrow> nonblank_lines (read_text fs f). snd (remap_line old new raw)])"
    unfolding lf s3 .
  have "(\<Sum>f \<leftarrow> label_files fs labels_dir.
            length [raw \<leftarrow> nonblank_lines (read_text fs f). snd (remap_line old new raw)])
        + (\<Sum>f \<leftarrow> label_files fs labels_dir.
            length [raw \<leftarrow> nonblank_lines (read_text fs f). \<not> snd (remap_line old new raw)])
        = (\<Sum>f \<leftarrow> label_files fs labels_dir. length (nonblank_lines (read_text fs f)))"
    by (rule sum_filter_both)
  with c4 d2 d3 have d4: "unchanged st = (\<Sum>f \<leftarrow> label_files fs labels_dir.
                     length [raw \<leftarrow> nonblank_lines (read_text fs f). \<not> snd (remap_line old new raw)])"
    by simp
  from p o n d1 d2 d3 d4 c4 show ?thesis by blast
qed

theorem counters_count_label_lines_witness:
  "snd (remap_by_name example_fs [''data'', ''labels''] [''data'', ''out'']
          [''data'', ''old.txt''] [''data'', ''new.txt''] True)
     = Inr \<lparr>files = 1, lines = 3, changed = 2, unchanged = 1\<rparr>
   \<and> label_files example_fs [''data'', ''labels''] = [[''data'', ''labels'', ''a.txt'']]
   \<and> nonblank_lines (read_text example_fs [''data'', ''labels'', ''a.txt''])
       = [''0 0.1 0.2 0.3 0.4'', ''1  0.5 0.5 0.1 0.1'', ''7 1 1 1 1'']
   \<and> files \<lparr>files = 1, lines = 3, changed = 2, unchanged = 1\<rparr>
       = length (label_files example_fs [''data'', ''labels''])
   \<and> lines \<lparr>files = 1, lines = 3, changed = 2, unchanged = 1\<rparr>
       = (\<Sum>f \<leftarrow> label_files example_fs [''data'', ''labels''].
            length (nonblank_lines (read_text example_fs f)))"
proof -
  have h: "snd (remap_by_name example_fs [''data'', ''labels''] [''data'', ''out'']
          [''data'', ''old.txt''] [''data'', ''new.txt''] True)
     = Inr \<lparr>files = 1, lines = 3, changed = 2, unchanged = 1\<rparr>"
    by code_simp
  have l: "label_files example_fs [''data'', ''labels''] = [[''data'', ''labels'', ''a.txt'']]"
    by code_simp
  have t: "nonblank_lines (read_text example_fs [''data'', ''labels'', ''a.txt''])
       = [''0 0.1 0.2 0.3 0.4'', ''1  0.5 0.5 0.1 0.1'', ''7 1 1 1 1'']"
    by code_simp
  from h have "remap_by_name example_fs [''data'', ''labels''] [''data'', ''out'']
          [''data'', ''old.txt''] [''data'', ''new.txt''] True
     = (fst (remap_by_name example_fs [''data'', ''labels''] [''data'', ''out'']
          [''data'', ''old.txt''] [''data'', ''new.txt''] True),
        Inr \<lparr>files = 1, lines = 3, changed = 2, unchanged = 1\<rparr>)"
    by (metis prod.collapse)
  from counters_count_label_lines[OF this] h l t show ?thesis by blast
qed

subsection \<open>What a run writes\<close>

text \<open>C8, as amended. For every run of the engine, whether it returns or raises,
  and every choice of output directory: a path that is not directly inside the
  output directory, and that is neither the backup directory nor below it when
  a backup is requested and no backup directory exists before the run, holds
  after the run what it held before, the only exception being a missing
  directory on the way to the output directory, which is created. And when the
  output directory is not the label directory, every file directly inside the
  label directory has its original content after the run.\<close>

theorem writes_only_output_and_backup:
  assumes "fs' = fst (remap_by_name fs labels_dir out_dir old_classes_path new_classes_path
                        create_backup)"
  shows "(\<forall>q. (q = [] \<or> butlast q \<noteq> out_dir) \<and>
              (\<not> create_backup \<or> exists fs (backup_path labels_dir)
               \<or> (q \<noteq> backup_path labels_dir \<and> \<not> below (backup_path labels_dir) q))
            \<longrightarrow> lookup fs' q = lookup fs q
                \<or> (lookup fs q = None \<and> lookup fs' q = Some Dir \<and> take (length q) out_dir = q))
       \<and> (out_dir \<noteq> labels_dir \<longrightarrow>
            (\<forall>n c. lookup fs (labels_dir @ [n]) = Some (File c)
                     \<longrightarrow> lookup fs' (labels_dir @ [n]) = Some (File c)))"
proof (intro conjI allI impI)
  fix n c
  assume "out_dir \<noteq> labels_dir" and "lookup fs (labels_dir @ [n]) = Some (File c)"
  then show "lookup fs' (labels_dir @ [n]) = Some (File c)"
    unfolding assms by (rule label_file_kept)
next
  fix q
  assume a: "(q = [] \<or> butlast q \<noteq> out_dir) \<and>
              (\<not> create_backup \<or> exists fs (backup_path labels_dir)
               \<or> (q \<noteq> backup_path labels_dir \<and> \<not> below (backup_path labels_dir) q))"
  then have a1: "q = [] \<or> butlast q \<noteq> out_dir"
    and a2: "\<not> create_backup \<or> exists fs (backup_path labels_dir)
               \<or> (q \<noteq> backup_path labels_dir \<and> \<not> below (backup_path labels_dir) q)"
    by blast+
  show "lookup fs' q = lookup fs q
        \<or> (lookup fs q = None \<and> lookup fs' q = Some Dir \<and> take (length q) out_dir = q)"
  proof (cases "prepare fs labels_dir out_dir create_backup")
    case (Inl e)
    then have "fs' = fs" unfolding assms by (simp add: remap_by_name_prepare)
    then show ?thesis by simp
  next
    case (Inr fs2)
    then have "fs' = fst (remap_from_classes fs2 labels_dir out_dir old_classes_path new_classes_path)"
      unfolding assms by (simp add: remap_by_name_prepare)
    with remap_from_classes_frame[OF a1, of fs2 labels_dir old_classes_path new_classes_path]
    have "lookup fs' q = lookup fs2 q" by simp
    with prepare_frame[OF Inr a2] show ?thesis by simp
  qed
qed

theorem writes_only_output_and_backup_witness:
  "[''data'', ''out''] \<noteq> [''data'', ''labels'']
   \<and> lookup example_fs ([''data'', ''labels''] @ [''a.txt''])
       = Some (File (''0 0.1 0.2 0.3 0.4'' @ [CHR 0x0A] @ ''1  0.5 0.5 0.1 0.1'' @ [CHR 0x0A] @ ''7 1 1 1 1''))
   \<and> lookup (fst (remap_by_name example_fs [''data'', ''labels''] [''data'', ''out'']
                    [''data'', ''old.txt''] [''data'', ''new.txt''] True))
         ([''data'', ''labels''] @ [''a.txt''])
       = Some (File (''0 0.1 0.2 0.3 0.4'' @ [CHR 0x0A] @ ''1  0.5 0.5 0.1 0.1'' @ [CHR 0x0A] @ ''7 1 1 1 1''))
   \<and> butlast [''data'', ''old.txt''] \<noteq> [''data'', ''out'']
   \<and> [''data'', ''old.txt''] \<noteq> backup_path [''data'', ''labels'']
   \<and> \<not> below (backup_path [''data'', ''labels'']) [''data'', ''old.txt'']
   \<and> lookup example_fs [''data'', ''old.txt''] = Some (File (''cat'' @ [CHR 0x0A] @ ''dog'' @ [CHR 0x0A]))
   \<and> lookup (fst (remap_by_name example_fs [''data'', ''labels''] [''data'', ''out'']
                    [''data'', ''old.txt''] [''data'', ''new.txt''] True))
         [''data'', ''old.txt'']
       = Some (File (''cat'' @ [CHR 0x0A] @ ''dog'' @ [CHR 0x0A]))"
proof -
  have h1: "[''data'', ''out''] \<noteq> [''data'', ''labels'']" by simp
  have h2: "lookup example_fs ([''data'', ''labels''] @ [''a.txt''])
       = Some (File (''0 0.1 0.2 0.3 0.4'' @ [CHR 0x0A] @ ''1  0.5 0.5 0.1 0.1'' @ [CHR 0x0A] @ ''7 1 1 1 1''))"
    by code_simp
  have h3: "butlast [''data'', ''old.txt''] \<noteq> [''data'', ''out'']" by simp
  have h4: "[''data'', ''old.txt''] \<noteq> backup_path [''data'', ''labels'']" by code_simp
  have h5: "\<not> below (backup_path [''data'', ''labels'']) [''data'', ''old.txt'']" by code_simp
  have h6: "lookup example_fs [''data'', ''old.txt''] = Some (File (''cat'' @ [CHR 0x0A] @ ''dog'' @ [CHR 0x0A]))"
    by code_simp
  note t = writes_only_output_and_backup[where fs = example_fs and labels_dir = "[''data'', ''labels'']"
             and out_dir = "[''data'', ''out'']" and old_classes_path = "[''data'', ''old.txt'']"
             and new_classes_path = "[''data'', ''new.txt'']" and create_backup = True, OF refl]
  from t have t2: "[''data'', ''out''] \<noteq> [''data'', ''labels''] \<longrightarrow>
            (\<forall>n c. lookup example_fs ([''data'', ''labels''] @ [n]) = Some (File c)
                     \<longrightarrow> lookup (fst (remap_by_name example_fs [''data'', ''labels''] [''data'', ''out'']
                    [''data'', ''old.txt''] [''data'', ''new.txt''] True)) ([''data'', ''labels''] @ [n]) = Some (File c))"
    by (rule conjunct2)
  from t2 h1 have t3: "\<forall>n c. lookup example_fs ([''data'', ''labels''] @ [n]) = Some (File c)
                     \<longrightarrow> lookup (fst (remap_by_name example_fs [''data'', ''labels''] [''data'', ''out'']
                    [''data'', ''old.txt''] [''data'', ''new.txt''] True)) ([''data'', ''labels''] @ [n]) = Some (File c)"
    by (rule mp)
  from t3[rule_format, OF h2]
  have c1: "lookup (fst (remap_by_name example_fs [''data'', ''labels''] [''data'', ''out'']
                    [''data'', ''old.txt''] [''data'', ''new.txt''] True))
         ([''data'', ''labels''] @ [''a.txt''])
       = Some (File (''0 0.1 0.2 0.3 0.4'' @ [CHR 0x0A] @ ''1  0.5 0.5 0.1 0.1'' @ [CHR 0x0A] @ ''7 1 1 1 1''))" .
  from h3 h4 h5 have g: "([''data'', ''old.txt''] = [] \<or> butlast [''data'', ''old.txt''] \<noteq> [''data'', ''out'']) \<and>
              (\<not> True \<or> exists example_fs (backup_path [''data'', ''labels''])
               \<or> ([''data'', ''old.txt''] \<noteq> backup_path [''data'', ''labels'']
                   \<and> \<not> below (backup_path [''data'', ''labels'']) [''data'', ''old.txt'']))"
    by (intro conjI disjI2)
  from t have t1: "\<forall>q. (q = [] \<or> butlast q \<noteq> [''data'', ''out'']) \<and>
              (\<not> True \<or> exists example_fs (backup_path [''data'', ''labels''])
               \<or> (q \<noteq> backup_path [''data'', ''labels''] \<and> \<not> below (backup_path [''data'', ''labels'']) q))
            \<longrightarrow> lookup (fst (remap_by_name example_fs [''data'', ''labels''] [''data'', ''out'']
                    [''data'', ''old.txt''] [''data'', ''new.txt''] True)) q = lookup example_fs q
                \<or> (lookup example_fs q = None \<and> lookup (fst (remap_by_name example_fs [''data'', ''labels''] [''data'', ''out'']
                    [''data'', ''old.txt''] [''data'', ''new.txt''] True)) q = Some Dir \<and> take (length q) [''data'', ''out''] = q)"
    by (rule conjunct1)
  from t1[rule_format, OF g] h6
  have c2: "lookup (fst (remap_by_name example_fs [''data'', ''labels''] [''data'', ''out'']
                    [''data'', ''old.txt''] [''data'', ''new.txt''] True)) [''data'', ''old.txt'']
       = Some (File (''cat'' @ [CHR 0x0A] @ ''dog'' @ [CHR 0x0A]))"
    by (elim disjE) simp_all
  from h1 h2 c1 h3 h4 h5 h6 c2 show ?thesis by (intro conjI)
qed

text \<open>The claim as stated, for every output directory, fails when the output
  directory is the label directory itself: the label file is replaced by its
  remapped text.\<close>

theorem label_files_overwritten_in_place:
  "lookup example_fs [''data'', ''labels'', ''a.txt'']
     = Some (File (''0 0.1 0.2 0.3 0.4'' @ [CHR 0x0A] @ ''1  0.5 0.5 0.1 0.1'' @ [CHR 0x0A] @ ''7 1 1 1 1''))
   \<and> lookup (fst (remap_by_name example_fs [''data'', ''labels''] [''data'', ''labels'']
                    [''data'', ''old.txt''] [''data'', ''new.txt''] True))
         [''data'', ''labels'', ''a.txt'']
     = Some (File (''1 0.1 0.2 0.3 0.4'' @ [CHR 0x0A] @ ''0 0.5 0.5 0.1 0.1'' @ [CHR 0x0A] @ ''7 1 1 1 1'' @ [CHR 0x0A]))"
  by code_simp

subsection \<open>The text a run writes, read again\<close>

lemma second_pass_text:
  assumes a: "\<forall>raw\<in>set (nonblank_lines content).
                valid_line old new raw \<or> remap_line new new raw = (raw, False)"
  shows "\<forall>l\<in>set (map (\<lambda>r. fst (remap_line old new r)) (nonblank_lines content)).
           (\<forall>c\<in>set l. \<not> is_linebreak c) \<and> strip l \<noteq> [] \<and> remap_line new new l = (l, False)"
proof
  fix l assume "l \<in> set (map (\<lambda>r. fst (remap_line old new r)) (nonblank_lines content))"
  then obtain r where rin: "r \<in> set (nonblank_lines content)" and l: "l = fst (remap_line old new r)"
    by auto
  from rin have rs: "r \<in> set (splitlines content)" and nb: "strip r \<noteq> []"
    by (simp_all add: nonblank_lines_def)
  show "(\<forall>c\<in>set l. \<not> is_linebreak c) \<and> strip l \<noteq> [] \<and> remap_line new new l = (l, False)"
  proof (cases "valid_line old new r")
    case True
    from second_pass_line[OF True] l show ?thesis by simp
  next
    case False
    then have "remap_line old new r = (r, False)" by (rule remap_line_invalid)
    with l have lr: "l = r" by simp
    from a rin False have "remap_line new new r = (r, False)" by blast
    with lr nb splitlines_no_break[OF rs] show ?thesis by simp
  qed
qed

lemma canonical_text:
  assumes "\<forall>l\<in>set ls. (\<forall>c\<in>set l. \<not> is_linebreak c) \<and> strip l \<noteq> [] \<and> remap_line xs ys l = (l, False)"
  shows "universal_newlines (out_text ls) = out_text ls"
    and "nonblank_lines (out_text ls) = ls"
    and "map (\<lambda>r. fst (remap_line xs ys r)) ls = ls"
    and "[raw \<leftarrow> ls. snd (remap_line xs ys raw)] = []"
proof -
  from assms have nb: "\<forall>l\<in>set ls. \<forall>c\<in>set l. \<not> is_linebreak c" by blast
  then have "CHR 0x0D \<notin> set (out_text ls)" by (rule out_text_no_cr)
  then show "universal_newlines (out_text ls) = out_text ls" by (rule universal_newlines_id)
  from nb have s: "splitlines (out_text ls) = ls" by (rule splitlines_out_text)
  from assms have "filter (\<lambda>r. strip r \<noteq> []) ls = ls" by (intro filter_True) blast
  with s show "nonblank_lines (out_text ls) = ls" by (simp add: nonblank_lines_def)
  from assms have "\<forall>l\<in>set ls. fst (remap_line xs ys l) = l" by simp
  then show "map (\<lambda>r. fst (remap_line xs ys r)) ls = ls" by (intro map_idI) blast
  from assms have "\<forall>l\<in>set ls. \<not> snd (remap_line xs ys l)" by simp
  then show "[raw \<leftarrow> ls. snd (remap_line xs ys raw)] = []" by (simp add: filter_empty_conv)
qed

lemma universal_newlines_no_cr: "CHR 0x0D \<notin> set (universal_newlines s)"
proof (induction s rule: universal_newlines.induct)
  case 1
  show ?case by simp
next
  case (2 c)
  show ?case by simp
next
  case (3 c d ds)
  show ?case
  proof (cases "c = CHR 0x0D")
    case True
    show ?thesis
    proof (cases "d = CHR 0x0A")
      case d: True
      with True "3.IH"(1) show ?thesis by simp
    next
      case d: False
      with True "3.IH"(2) show ?thesis by simp
    qed
  next
    case False
    with "3.IH"(3) show ?thesis by simp
  qed
qed

lemma readlines_acc_chars: "l \<in> set (readlines_acc cur s) \<Longrightarrow> set l \<subseteq> set cur \<union> set s"
proof (induction s arbitrary: cur)
  case Nil
  then show ?case by (simp split: if_splits)
next
  case (Cons c cs)
  show ?case
  proof (cases "c = CHR 0x0A")
    case True
    with Cons.prems have "l = cur @ [c] \<or> l \<in> set (readlines_acc [] cs)" by simp
    then show ?thesis
    proof
      assume "l = cur @ [c]"
      then show ?thesis by auto
    next
      assume "l \<in> set (readlines_acc [] cs)"
      from Cons.IH[OF this] show ?thesis by auto
    qed
  next
    case False
    with Cons.prems have "l \<in> set (readlines_acc (cur @ [c]) cs)" by simp
    from Cons.IH[OF this] show ?thesis by auto
  qed
qed

lemma rstrip_nl_chars: "set (rstrip_nl l) \<subseteq> set l"
proof -
  have "set (dropWhile (\<lambda>c. c = CHR 0x0A) (rev l)) \<subseteq> set (rev l)"
    using set_dropWhileD by fastforce
  then show ?thesis by (simp add: rstrip_nl_def)
qed

lemma read_classes_no_cr:
  assumes "read_classes fs p = Inr new"
  shows "\<forall>nm\<in>set new. CHR 0x0D \<notin> set nm"
proof
  fix nm assume nm: "nm \<in> set new"
  from assms obtain content where
    n: "new = [rstrip_nl ln. ln \<leftarrow> readlines (universal_newlines content), rstrip_nl ln \<noteq> []]"
    by (auto simp: read_classes_def split: option.splits node.splits)
  from nm obtain ln where ln: "ln \<in> set (readlines (universal_newlines content))"
    and e: "nm = rstrip_nl ln" unfolding n by auto
  from ln have "set ln \<subseteq> set (universal_newlines content)"
    using readlines_acc_chars[of ln "[]" "universal_newlines content"] by (simp add: readlines_def)
  with rstrip_nl_chars[of ln] e have "set nm \<subseteq> set (universal_newlines content)" by blast
  with universal_newlines_no_cr[of content] show "CHR 0x0D \<notin> set nm" by blast
qed

lemma classes_text_read:
  assumes "read_classes fs p = Inr new"
  shows "universal_newlines (join [CHR 0x0A] new @ [CHR 0x0A]) = join [CHR 0x0A] new @ [CHR 0x0A]"
proof (rule universal_newlines_id)
  show "CHR 0x0D \<notin> set (join [CHR 0x0A] new @ [CHR 0x0A])"
  proof
    assume "CHR 0x0D \<in> set (join [CHR 0x0A] new @ [CHR 0x0A])"
    then have "CHR 0x0D \<in> set (join [CHR 0x0A] new)" by simp
    then have "CHR 0x0D \<in> set [CHR 0x0A] \<or> (\<exists>x\<in>set new. CHR 0x0D \<in> set x)" by (rule set_join)
    with read_classes_no_cr[OF assms] show False by auto
  qed
qed

subsection \<open>The files a run leaves in the output directory\<close>

lemma remap_from_classes_writes:
  assumes r: "remap_from_classes fs2 labels_dir out_dir op np = (fs', Inr st)"
      and o: "read_classes fs2 op = Inr old"
      and n: "read_classes fs2 np = Inr new"
  shows "\<forall>f\<in>set (label_files fs2 labels_dir). name f \<noteq> ''classes_mapped.txt'' \<longrightarrow>
           lookup fs' (out_dir @ [name f])
             = Some (File (out_text (map (\<lambda>r. fst (remap_line old new r))
                                        (nonblank_lines (read_text fs2 f)))))"
    and "lookup fs' (out_dir @ [''classes_mapped.txt'']) = Some (File (join [CHR 0x0A] new @ [CHR 0x0A]))"
    and "\<forall>q. q \<noteq> out_dir @ [''classes_mapped.txt'']
              \<and> (\<forall>f\<in>set (label_files fs2 labels_dir). q \<noteq> out_dir @ [name f])
           \<longrightarrow> lookup fs' q = lookup fs2 q"
    and "changed st = (\<Sum>f \<leftarrow> label_files fs2 labels_dir.
                          length [raw \<leftarrow> nonblank_lines (read_text fs2 f). snd (remap_line old new raw)])"
proof -
  from r o n obtain fs3 where
    rf: "remap_files old new out_dir fs2 stats0 (sort (iterdir fs2 labels_dir)) = (fs3, Inr st)"
    and w: "write_text fs3 (out_dir @ [''classes_mapped.txt'']) (join [CHR 0x0A] new @ [CHR 0x0A]) = Inr fs'"
    unfolding remap_from_classes_def by (auto split: sum.splits prod.splits)
  have d: "distinct (sort (iterdir fs2 labels_dir))" by (simp add: iterdir_def)
  have c: "\<forall>f\<in>set (sort (iterdir fs2 labels_dir)). f \<noteq> [] \<and> butlast f = labels_dir"
    by (simp add: mem_iterdir)
  note run = remap_files_run[OF d c rf]
  have mem: "\<And>f. f \<in> set (label_files fs2 labels_dir)
               \<longleftrightarrow> f \<in> set (sort (iterdir fs2 labels_dir)) \<and> is_label_file fs2 f"
    by (simp add: label_files_def)
  from run have r3: "changed st = changed stats0 + (\<Sum>f \<leftarrow> label_files fs2 labels_dir.
                          length [raw \<leftarrow> nonblank_lines (read_text fs2 f). snd (remap_line old new raw)])"
    unfolding label_files_def by blast
  from run have r4: "\<forall>f\<in>set (sort (iterdir fs2 labels_dir)). is_label_file fs2 f \<longrightarrow>
             lookup fs3 (out_dir @ [name f])
               = Some (File (out_text (map (\<lambda>r. fst (remap_line old new r))
                                          (nonblank_lines (read_text fs2 f)))))"
    by blast
  from run have r5: "\<forall>q. (\<forall>f\<in>set (sort (iterdir fs2 labels_dir)). is_label_file fs2 f
                               \<longrightarrow> q \<noteq> out_dir @ [name f])
             \<longrightarrow> lookup fs3 q = lookup fs2 q"
    by blast
  from w have fs': "fs' = fs_put fs3 (out_dir @ [''classes_mapped.txt'']) (File (join [CHR 0x0A] new @ [CHR 0x0A]))"
    by (simp add: write_text_def split: option.splits node.splits)
  show "lookup fs' (out_dir @ [''classes_mapped.txt'']) = Some (File (join [CHR 0x0A] new @ [CHR 0x0A]))"
    unfolding fs' by (rule lookup_fs_put_same) simp
  show "\<forall>f\<in>set (label_files fs2 labels_dir). name f \<noteq> ''classes_mapped.txt'' \<longrightarrow>
           lookup fs' (out_dir @ [name f])
             = Some (File (out_text (map (\<lambda>r. fst (remap_line old new r))
                                        (nonblank_lines (read_text fs2 f)))))"
  proof (intro ballI impI)
    fix f assume f: "f \<in> set (label_files fs2 labels_dir)" and nm: "name f \<noteq> ''classes_mapped.txt''"
    from nm have "out_dir @ [name f] \<noteq> out_dir @ [''classes_mapped.txt'']" by simp
    with w have "lookup fs' (out_dir @ [name f]) = lookup fs3 (out_dir @ [name f])"
      by (rule write_text_frame)
    moreover from f r4 have "lookup fs3 (out_dir @ [name f])
               = Some (File (out_text (map (\<lambda>r. fst (remap_line old new r))
                                          (nonblank_lines (read_text fs2 f)))))"
      unfolding mem by simp
    ultimately show "lookup fs' (out_dir @ [name f])
             = Some (File (out_text (map (\<lambda>r. fst (remap_line old new r))
                                        (nonblank_lines (read_text fs2 f)))))" by simp
  qed
  show "\<forall>q. q \<noteq> out_dir @ [''classes_mapped.txt'']
              \<and> (\<forall>f\<in>set (label_files fs2 labels_dir). q \<noteq> out_dir @ [name f])
           \<longrightarrow> lookup fs' q = lookup fs2 q"
  proof (intro allI impI)
    fix q assume a: "q \<noteq> out_dir @ [''classes_mapped.txt'']
              \<and> (\<forall>f\<in>set (label_files fs2 labels_dir). q \<noteq> out_dir @ [name f])"
    then have "q \<noteq> out_dir @ [''classes_mapped.txt'']" by (rule conjunct1)
    with w have "lookup fs' q = lookup fs3 q" by (rule write_text_frame)
    moreover from a have a2: "\<forall>f\<in>set (label_files fs2 labels_dir). q \<noteq> out_dir @ [name f]"
      by (rule conjunct2)
    have "\<forall>f\<in>set (sort (iterdir fs2 labels_dir)). is_label_file fs2 f
                               \<longrightarrow> q \<noteq> out_dir @ [name f]"
    proof (intro ballI impI)
      fix f assume "f \<in> set (sort (iterdir fs2 labels_dir))" and "is_label_file fs2 f"
      then have "f \<in> set (label_files fs2 labels_dir)" unfolding mem by (rule conjI)
      with a2 show "q \<noteq> out_dir @ [name f]" by (rule bspec)
    qed
    with r5 have "lookup fs3 q = lookup fs2 q" by simp
    ultimately show "lookup fs' q = lookup fs2 q" by simp
  qed
  from r3 show "changed st = (\<Sum>f \<leftarrow> label_files fs2 labels_dir.
                          length [raw \<leftarrow> nonblank_lines (read_text fs2 f). snd (remap_line old new raw)])"
    by (simp add: stats0_def)
qed

lemma prepare_out_child:
  assumes p: "prepare fs labels_dir out_dir b = Inr fs2"
      and q: "q \<noteq> []" "butlast q = out_dir"
  shows "lookup fs2 q = lookup fs q \<or> (lookup fs q = None \<and> lookup fs2 q = Some Dir)"
proof -
  from p obtain fs1 where m: "mkdir_parents fs out_dir = Inr fs1"
    and f2: "fs2 = (if b \<and> \<not> exists fs1 (backup_path labels_dir)
                    then copytree fs1 labels_dir (backup_path labels_dir) else fs1)"
    by (auto simp: prepare_def Let_def split: if_splits sum.splits)
  from m have a: "lookup fs1 q = lookup fs q \<or> (lookup fs q = None \<and> lookup fs1 q = Some Dir)"
    using mkdirs_adds_dirs[of fs "[]" out_dir fs1 q] by (auto simp: mkdir_parents_def)
  show ?thesis
  proof (cases "b \<and> \<not> exists fs1 (backup_path labels_dir)")
    case False
    then have "fs2 = fs1" unfolding f2 by (rule if_not_P)
    with a show ?thesis by simp
  next
    case c: True
    then have e: "fs2 = copytree fs1 labels_dir (backup_path labels_dir)"
      unfolding f2 by (rule if_P)
    show ?thesis
    proof (cases "q = backup_path labels_dir")
      case True
      with e copytree_is_dir[of fs1 labels_dir "backup_path labels_dir"]
      have d: "lookup fs2 q = Some Dir" by (simp add: is_dir_def)
      have "lookup fs q = None"
      proof (cases "lookup fs q")
        case None
        then show ?thesis .
      next
        case (Some nd)
        with m have "lookup fs1 q = Some nd" by (rule mkdir_parents_keeps)
        with c True show ?thesis by (simp add: exists_def)
      qed
      with d show ?thesis by simp
    next
      case False
      have nb: "\<not> below (backup_path labels_dir) q"
      proof
        assume bq: "below (backup_path labels_dir) q"
        from q have qe: "q = out_dir @ [last q]" by auto
        from bq have len: "length (backup_path labels_dir) < length q"
          and tk: "take (length (backup_path labels_dir)) q = backup_path labels_dir"
          by (simp_all add: below_def)
        from len qe have le: "length (backup_path labels_dir) \<le> length out_dir"
          by (metis length_append_singleton less_Suc_eq_le)
        from tk qe le have t2: "take (length (backup_path labels_dir)) out_dir = backup_path labels_dir"
          by (metis append.right_neutral diff_is_0_eq take_0 take_append)
        have "is_dir fs1 (backup_path labels_dir)"
        proof (cases "length (backup_path labels_dir) = length out_dir")
          case True
          with t2 have "backup_path labels_dir = out_dir" by simp
          with mkdir_parents_is_dir[OF m] show ?thesis by simp
        next
          case False
          with le t2 have "below (backup_path labels_dir) out_dir" by (simp add: below_def)
          with m show ?thesis by (rule mkdir_parents_ancestor_is_dir)
        qed
        with c show False by (simp add: is_dir_def exists_def)
      qed
      from False nb have "lookup (copytree fs1 labels_dir (backup_path labels_dir)) q = lookup fs1 q"
        by (rule copytree_frame)
      with e a show ?thesis by simp
    qed
  qed
qed

lemma remap_by_name_writes:
  assumes r: "remap_by_name fs labels_dir out_dir op np b = (fs1, Inr st)"
      and p: "prepare fs labels_dir out_dir b = Inr fsp"
      and o: "read_classes fsp op = Inr old"
      and n: "read_classes fsp np = Inr new"
  shows "\<forall>f\<in>set (label_files fs labels_dir). name f \<noteq> ''classes_mapped.txt'' \<longrightarrow>
           lookup fs1 (out_dir @ [name f])
             = Some (File (out_text (map (\<lambda>r. fst (remap_line old new r))
                                        (nonblank_lines (read_text fs f)))))"
    and "lookup fs1 (out_dir @ [''classes_mapped.txt'']) = Some (File (join [CHR 0x0A] new @ [CHR 0x0A]))"
    and "\<forall>q. q \<noteq> [] \<and> butlast q = out_dir \<and> q \<noteq> out_dir @ [''classes_mapped.txt'']
              \<and> (\<forall>f\<in>set (label_files fs labels_dir). q \<noteq> out_dir @ [name f])
           \<longrightarrow> is_label_file fs1 q = is_label_file fs q"
    and "changed st = (\<Sum>f \<leftarrow> label_files fs labels_dir.
                          length [raw \<leftarrow> nonblank_lines (read_text fs f). snd (remap_line old new raw)])"
proof -
  from r p have rc: "remap_from_classes fsp labels_dir out_dir op np = (fs1, Inr st)"
    by (simp add: remap_by_name_prepare)
  note w = remap_from_classes_writes[OF rc o n, unfolded prepare_label_files[OF p]]
  note rt = prepare_read_text[OF p]
  show "\<forall>f\<in>set (label_files fs labels_dir). name f \<noteq> ''classes_mapped.txt'' \<longrightarrow>
           lookup fs1 (out_dir @ [name f])
             = Some (File (out_text (map (\<lambda>r. fst (remap_line old new r))
                                        (nonblank_lines (read_text fs f)))))"
  proof (intro ballI impI)
    fix f assume f: "f \<in> set (label_files fs labels_dir)" and nm: "name f \<noteq> ''classes_mapped.txt''"
    with w(1) have "lookup fs1 (out_dir @ [name f])
             = Some (File (out_text (map (\<lambda>r. fst (remap_line old new r))
                                        (nonblank_lines (read_text fsp f)))))" by simp
    with rt[OF f] show "lookup fs1 (out_dir @ [name f])
             = Some (File (out_text (map (\<lambda>r. fst (remap_line old new r))
                                        (nonblank_lines (read_text fs f)))))" by simp
  qed
  from w(2) show "lookup fs1 (out_dir @ [''classes_mapped.txt'']) = Some (File (join [CHR 0x0A] new @ [CHR 0x0A]))" .
  show "\<forall>q. q \<noteq> [] \<and> butlast q = out_dir \<and> q \<noteq> out_dir @ [''classes_mapped.txt'']
              \<and> (\<forall>f\<in>set (label_files fs labels_dir). q \<noteq> out_dir @ [name f])
           \<longrightarrow> is_label_file fs1 q = is_label_file fs q"
  proof (intro allI impI)
    fix q assume a: "q \<noteq> [] \<and> butlast q = out_dir \<and> q \<noteq> out_dir @ [''classes_mapped.txt'']
              \<and> (\<forall>f\<in>set (label_files fs labels_dir). q \<noteq> out_dir @ [name f])"
    then have q: "q \<noteq> []" "butlast q = out_dir" by simp_all
    from a have "q \<noteq> out_dir @ [''classes_mapped.txt'']
              \<and> (\<forall>f\<in>set (label_files fs labels_dir). q \<noteq> out_dir @ [name f])" by simp
    with w(3) have e: "lookup fs1 q = lookup fsp q" by simp
    from prepare_out_child[OF p q] have "is_label_file fsp q = is_label_file fs q"
      by (auto simp: is_label_file_def is_file_def)
    with is_label_file_lookup[OF e] show "is_label_file fs1 q = is_label_file fs q" by simp
  qed
  have "(\<Sum>f \<leftarrow> label_files fs labels_dir.
               length [raw \<leftarrow> nonblank_lines (read_text fsp f). snd (remap_line old new raw)])
          = (\<Sum>f \<leftarrow> label_files fs labels_dir.
               length [raw \<leftarrow> nonblank_lines (read_text fs f). snd (remap_line old new raw)])"
    using rt by (intro arg_cong[where f = sum_list] map_cong) simp_all
  with w(4) show "changed st = (\<Sum>f \<leftarrow> label_files fs labels_dir.
                          length [raw \<leftarrow> nonblank_lines (read_text fs f). snd (remap_line old new raw)])"
    by simp
qed

subsection \<open>A second run on the output directory\<close>

text \<open>C6, as amended. Let a run of the engine return, with \<open>old\<close> and \<open>new\<close> the
  class lists it read, and let every non-blank line of every label file satisfy
  the validity conditions under (old, new) or be a line that a pass with
  (new, new) leaves as it is; let no non-blank line of the class list written to
  \<open>classes_mapped.txt\<close> be rewritten by a pass with (new, new); and let the output
  directory hold, before the run, no \<open>.txt\<close> file other than those the run
  overwrites. Then a run on the output directory that reads the new class list
  as both lists, if it returns, counts no line as changed, and writes for every
  \<open>.txt\<close> file of the output directory a file of the same name with the same
  bytes.\<close>

theorem second_run_changes_nothing:
  assumes run1: "remap_by_name fs labels_dir out_dir old_classes_path new_classes_path create_backup
                   = (fs1, Inr st1)"
      and p1: "prepare fs labels_dir out_dir create_backup = Inr fsp"
      and o1: "read_classes fsp old_classes_path = Inr old"
      and n1: "read_classes fsp new_classes_path = Inr new"
      and lns: "\<forall>f\<in>set (label_files fs labels_dir). \<forall>raw\<in>set (nonblank_lines (read_text fs f)).
                  valid_line old new raw \<or> remap_line new new raw = (raw, False)"
      and names: "\<forall>raw\<in>set (nonblank_lines (join [CHR 0x0A] new @ [CHR 0x0A])).
                  remap_line new new raw = (raw, False)"
      and others: "\<forall>q\<in>set (label_files fs out_dir).
                  q = out_dir @ [''classes_mapped.txt'']
                  \<or> (\<exists>f\<in>set (label_files fs labels_dir). q = out_dir @ [name f])"
      and run2: "remap_by_name fs1 out_dir out_dir2 classes_path2 classes_path2 create_backup2
                   = (fs2, Inr st2)"
      and p2: "prepare fs1 out_dir out_dir2 create_backup2 = Inr fsp2"
      and n2: "read_classes fsp2 classes_path2 = Inr new"
  shows "changed st2 = 0
       \<and> (\<forall>f\<in>set (label_files fs1 out_dir). lookup fs2 (out_dir2 @ [name f]) = lookup fs1 f)"
proof -
  define cm where "cm = ''classes_mapped.txt''"
  note w1 = remap_by_name_writes[OF run1 p1 o1 n1, folded cm_def]
  note w2 = remap_by_name_writes[OF run2 p2 n2 n2, folded cm_def]
  note oth = others[folded cm_def]
  have nf: "\<And>f. f \<in> set (label_files fs1 out_dir) \<Longrightarrow> f = out_dir @ [name f]"
  proof -
    fix f assume "f \<in> set (label_files fs1 out_dir)"
    then have "f \<noteq> []" and "butlast f = out_dir" by (simp_all add: set_label_files)
    then show "f = out_dir @ [name f]" by (auto simp: name_def)
  qed
  have A: "\<And>f. f \<in> set (label_files fs1 out_dir) \<Longrightarrow>
             name f = cm \<or> (\<exists>g\<in>set (label_files fs labels_dir). name g \<noteq> cm \<and> name f = name g)"
  proof -
    fix f assume f: "f \<in> set (label_files fs1 out_dir)"
    then have f0: "f \<noteq> []" "butlast f = out_dir" and lf: "is_label_file fs1 f"
      by (simp_all add: set_label_files)
    note fe = nf[OF f]
    have "f = out_dir @ [cm] \<or> (\<exists>g\<in>set (label_files fs labels_dir). f = out_dir @ [name g])"
    proof (rule ccontr)
      assume c: "\<not> (f = out_dir @ [cm] \<or> (\<exists>g\<in>set (label_files fs labels_dir). f = out_dir @ [name g]))"
      with f0 have "f \<noteq> [] \<and> butlast f = out_dir \<and> f \<noteq> out_dir @ [cm]
              \<and> (\<forall>g\<in>set (label_files fs labels_dir). f \<noteq> out_dir @ [name g])" by blast
      with w1(3) have "is_label_file fs1 f = is_label_file fs f" by blast
      with lf f0 have "f \<in> set (label_files fs out_dir)" by (simp add: set_label_files)
      with oth c show False by blast
    qed
    then show "name f = cm \<or> (\<exists>g\<in>set (label_files fs labels_dir). name g \<noteq> cm \<and> name f = name g)"
    proof
      assume "f = out_dir @ [cm]"
      then have "name f = cm" by (simp add: name_def)
      then show ?thesis by simp
    next
      assume "\<exists>g\<in>set (label_files fs labels_dir). f = out_dir @ [name g]"
      then obtain g where g: "g \<in> set (label_files fs labels_dir)" and e: "f = out_dir @ [name g]"
        by blast
      from e have "name f = name g" by (simp add: name_def)
      with g show ?thesis by (cases "name g = cm") auto
    qed
  qed
  have B: "\<And>f. f \<in> set (label_files fs1 out_dir) \<Longrightarrow>
             (\<forall>raw\<in>set (nonblank_lines (read_text fs1 f)). remap_line new new raw = (raw, False))
           \<and> (name f \<noteq> cm \<longrightarrow>
                Some (File (out_text (map (\<lambda>r. fst (remap_line new new r))
                                          (nonblank_lines (read_text fs1 f))))) = lookup fs1 f)"
  proof -
    fix f assume f: "f \<in> set (label_files fs1 out_dir)"
    note fe = nf[OF f]
    from A[OF f] show "(\<forall>raw\<in>set (nonblank_lines (read_text fs1 f)). remap_line new new raw = (raw, False))
           \<and> (name f \<noteq> cm \<longrightarrow>
                Some (File (out_text (map (\<lambda>r. fst (remap_line new new r))
                                          (nonblank_lines (read_text fs1 f))))) = lookup fs1 f)"
    proof
      assume c: "name f = cm"
      with fe have "f = out_dir @ [cm]" by simp
      with w1(2) have "lookup fs1 f = Some (File (join [CHR 0x0A] new @ [CHR 0x0A]))" by simp
      then have "read_text fs1 f = universal_newlines (join [CHR 0x0A] new @ [CHR 0x0A])"
        by (simp add: read_text_def)
      with classes_text_read[OF n1] have "read_text fs1 f = join [CHR 0x0A] new @ [CHR 0x0A]" by simp
      with names c show ?thesis by simp
    next
      assume "\<exists>g\<in>set (label_files fs labels_dir). name g \<noteq> cm \<and> name f = name g"
      then obtain g where g: "g \<in> set (label_files fs labels_dir)" and gn: "name g \<noteq> cm"
        and e: "name f = name g" by blast
      define ls where "ls = map (\<lambda>r. fst (remap_line old new r)) (nonblank_lines (read_text fs g))"
      from w1(1) g gn have "lookup fs1 (out_dir @ [name g]) = Some (File (out_text ls))"
        unfolding ls_def by blast
      with fe e have lk: "lookup fs1 f = Some (File (out_text ls))" by simp
      from lns g have "\<forall>raw\<in>set (nonblank_lines (read_text fs g)).
                  valid_line old new raw \<or> remap_line new new raw = (raw, False)" by blast
      from second_pass_text[OF this]
      have fx: "\<forall>l\<in>set ls. (\<forall>c\<in>set l. \<not> is_linebreak c) \<and> strip l \<noteq> [] \<and> remap_line new new l = (l, False)"
        unfolding ls_def .
      note ct = canonical_text[OF fx]
      from lk have "read_text fs1 f = universal_newlines (out_text ls)" by (simp add: read_text_def)
      with ct(1) have "read_text fs1 f = out_text ls" by simp
      with ct(2) have nl: "nonblank_lines (read_text fs1 f) = ls" by simp
      from fx have "\<forall>raw\<in>set ls. remap_line new new raw = (raw, False)" by blast
      with nl ct(3) lk show ?thesis by simp
    qed
  qed
  have "\<forall>f\<in>set (label_files fs1 out_dir).
          length [raw \<leftarrow> nonblank_lines (read_text fs1 f). snd (remap_line new new raw)] = 0"
  proof
    fix f assume "f \<in> set (label_files fs1 out_dir)"
    from B[OF this] have "\<forall>raw\<in>set (nonblank_lines (read_text fs1 f)). \<not> snd (remap_line new new raw)"
      by simp
    then show "length [raw \<leftarrow> nonblank_lines (read_text fs1 f). snd (remap_line new new raw)] = 0"
      by (simp add: filter_empty_conv)
  qed
  then have "(\<Sum>f \<leftarrow> label_files fs1 out_dir.
                length [raw \<leftarrow> nonblank_lines (read_text fs1 f). snd (remap_line new new raw)]) = 0"
    by (simp add: sum_list_eq_0_iff)
  with w2(4) have C: "changed st2 = 0" by simp
  have D: "\<forall>f\<in>set (label_files fs1 out_dir). lookup fs2 (out_dir2 @ [name f]) = lookup fs1 f"
  proof
    fix f assume f: "f \<in> set (label_files fs1 out_dir)"
    note fe = nf[OF f]
    show "lookup fs2 (out_dir2 @ [name f]) = lookup fs1 f"
    proof (cases "name f = cm")
      case True
      with fe have "f = out_dir @ [cm]" by simp
      with w1(2) have "lookup fs1 f = Some (File (join [CHR 0x0A] new @ [CHR 0x0A]))" by simp
      with w2(2) True show ?thesis by simp
    next
      case False
      with w2(1) f have "lookup fs2 (out_dir2 @ [name f])
             = Some (File (out_text (map (\<lambda>r. fst (remap_line new new r))
                                        (nonblank_lines (read_text fs1 f)))))" by blast
      with B[OF f] False show ?thesis by simp
    qed
  qed
  from C D show ?thesis by (rule conjI)
qed

theorem second_run_changes_nothing_witness:
  "snd (remap_by_name example_fs [''data'', ''labels''] [''data'', ''out'']
          [''data'', ''old.txt''] [''data'', ''new.txt''] True)
     = Inr \<lparr>files = 1, lines = 3, changed = 2, unchanged = 1\<rparr>
   \<and> snd (remap_by_name
            (fst (remap_by_name example_fs [''data'', ''labels''] [''data'', ''out'']
                    [''data'', ''old.txt''] [''data'', ''new.txt''] True))
            [''data'', ''out''] [''data'', ''out2''] [''data'', ''new.txt''] [''data'', ''new.txt''] False)
     = Inr \<lparr>files = 2, lines = 5, changed = 0, unchanged = 5\<rparr>
   \<and> [''data'', ''out'', ''a.txt'']
       \<in> set (label_files (fst (remap_by_name example_fs [''data'', ''labels''] [''data'', ''out'']
                                  [''data'', ''old.txt''] [''data'', ''new.txt''] True))
                           [''data'', ''out''])
   \<and> lookup (fst (remap_by_name
            (fst (remap_by_name example_fs [''data'', ''labels''] [''data'', ''out'']
                    [''data'', ''old.txt''] [''data'', ''new.txt''] True))
            [''data'', ''out''] [''data'', ''out2''] [''data'', ''new.txt''] [''data'', ''new.txt''] False))
          ([''data'', ''out2''] @ [name [''data'', ''out'', ''a.txt'']])
     = lookup (fst (remap_by_name example_fs [''data'', ''labels''] [''data'', ''out'']
                      [''data'', ''old.txt''] [''data'', ''new.txt''] True))
              [''data'', ''out'', ''a.txt'']"
proof -
  define fs1 where "fs1 = fst (remap_by_name example_fs [''data'', ''labels''] [''data'', ''out'']
                                  [''data'', ''old.txt''] [''data'', ''new.txt''] True)"
  define fs2 where "fs2 = fst (remap_by_name fs1 [''data'', ''out''] [''data'', ''out2'']
                                  [''data'', ''new.txt''] [''data'', ''new.txt''] False)"
  have s1: "snd (remap_by_name example_fs [''data'', ''labels''] [''data'', ''out'']
          [''data'', ''old.txt''] [''data'', ''new.txt''] True)
     = Inr \<lparr>files = 1, lines = 3, changed = 2, unchanged = 1\<rparr>"
    by code_simp
  have s2: "snd (remap_by_name fs1 [''data'', ''out''] [''data'', ''out2'']
                   [''data'', ''new.txt''] [''data'', ''new.txt''] False)
     = Inr \<lparr>files = 2, lines = 5, changed = 0, unchanged = 5\<rparr>"
    unfolding fs1_def by code_simp
  have run1: "remap_by_name example_fs [''data'', ''labels''] [''data'', ''out'']
          [''data'', ''old.txt''] [''data'', ''new.txt''] True
     = (fs1, Inr \<lparr>files = 1, lines = 3, changed = 2, unchanged = 1\<rparr>)"
    unfolding fs1_def using s1 by (metis prod.collapse)
  have run2: "remap_by_name fs1 [''data'', ''out''] [''data'', ''out2'']
                   [''data'', ''new.txt''] [''data'', ''new.txt''] False
     = (fs2, Inr \<lparr>files = 2, lines = 5, changed = 0, unchanged = 5\<rparr>)"
    unfolding fs2_def using s2 by (metis prod.collapse)
  have p1: "prepare example_fs [''data'', ''labels''] [''data'', ''out''] True
              = Inr (projr (prepare example_fs [''data'', ''labels''] [''data'', ''out''] True))"
    by code_simp
  have o1: "read_classes (projr (prepare example_fs [''data'', ''labels''] [''data'', ''out''] True))
              [''data'', ''old.txt''] = Inr [''cat'', ''dog'']"
    by code_simp
  have n1: "read_classes (projr (prepare example_fs [''data'', ''labels''] [''data'', ''out''] True))
              [''data'', ''new.txt''] = Inr [''dog'', ''cat'']"
    by code_simp
  have lns: "\<forall>f\<in>set (label_files example_fs [''data'', ''labels'']).
               \<forall>raw\<in>set (nonblank_lines (read_text example_fs f)).
                  valid_line [''cat'', ''dog''] [''dog'', ''cat''] raw
                  \<or> remap_line [''dog'', ''cat''] [''dog'', ''cat''] raw = (raw, False)"
    by code_simp
  have names: "\<forall>raw\<in>set (nonblank_lines (join [CHR 0x0A] [''dog'', ''cat''] @ [CHR 0x0A])).
                  remap_line [''dog'', ''cat''] [''dog'', ''cat''] raw = (raw, False)"
    by code_simp
  have others: "\<forall>q\<in>set (label_files example_fs [''data'', ''out'']).
                  q = [''data'', ''out''] @ [''classes_mapped.txt'']
                  \<or> (\<exists>f\<in>set (label_files example_fs [''data'', ''labels'']).
                        q = [''data'', ''out''] @ [name f])"
    by code_simp
  have p2: "prepare fs1 [''data'', ''out''] [''data'', ''out2''] False
              = Inr (projr (prepare fs1 [''data'', ''out''] [''data'', ''out2''] False))"
    unfolding fs1_def by code_simp
  have n2: "read_classes (projr (prepare fs1 [''data'', ''out''] [''data'', ''out2''] False))
              [''data'', ''new.txt''] = Inr [''dog'', ''cat'']"
    unfolding fs1_def by code_simp
  have m: "[''data'', ''out'', ''a.txt''] \<in> set (label_files fs1 [''data'', ''out''])"
    unfolding fs1_def by code_simp
  note t = second_run_changes_nothing[OF run1 p1 o1 n1 lns names others run2 p2 n2]
  from t have "\<forall>f\<in>set (label_files fs1 [''data'', ''out'']).
                 lookup fs2 ([''data'', ''out2''] @ [name f]) = lookup fs1 f"
    by (rule conjunct2)
  from this m have c: "lookup fs2 ([''data'', ''out2''] @ [name [''data'', ''out'', ''a.txt'']])
                  = lookup fs1 [''data'', ''out'', ''a.txt'']"
    by (rule bspec)
  from s1 s2 m c show ?thesis unfolding fs2_def fs1_def by (intro conjI)
qed

text \<open>The claim as stated, for every label directory, fails in three ways. A line
  that the first run keeps as read can be rewritten by the second: with the name
  of position 0 missing from the new list the line \<open>00 1 2 3 4\<close> passes the first
  run unchanged, and the second run rewrites it and counts a change. The second
  run also reads \<open>classes_mapped.txt\<close> as a label file: a class name of five
  tokens that begins with a position of the list is rewritten and counted as
  changed (the file itself is written again from the list). And a \<open>.txt\<close> file
  that the output directory held before the first run is read by the second.\<close>

theorem second_run_changes_lines:
  "lookup (fst (remap_by_name
                  [([''d''], Dir), ([''d'', ''labels''], Dir),
                   ([''d'', ''labels'', ''a.txt''], File (''00 1 2 3 4'' @ [CHR 0x0A])),
                   ([''d'', ''old.txt''], File ''cat''), ([''d'', ''new.txt''], File ''dog'')]
                  [''d'', ''labels''] [''d'', ''out''] [''d'', ''old.txt''] [''d'', ''new.txt''] False))
          [''d'', ''out'', ''a.txt'']
     = Some (File (''00 1 2 3 4'' @ [CHR 0x0A]))
   \<and> snd (remap_by_name
            (fst (remap_by_name
                  [([''d''], Dir), ([''d'', ''labels''], Dir),
                   ([''d'', ''labels'', ''a.txt''], File (''00 1 2 3 4'' @ [CHR 0x0A])),
                   ([''d'', ''old.txt''], File ''cat''), ([''d'', ''new.txt''], File ''dog'')]
                  [''d'', ''labels''] [''d'', ''out''] [''d'', ''old.txt''] [''d'', ''new.txt''] False))
            [''d'', ''out''] [''d'', ''out2''] [''d'', ''new.txt''] [''d'', ''new.txt''] False)
     = Inr \<lparr>files = 2, lines = 2, changed = 1, unchanged = 1\<rparr>
   \<and> lookup (fst (remap_by_name
            (fst (remap_by_name
                  [([''d''], Dir), ([''d'', ''labels''], Dir),
                   ([''d'', ''labels'', ''a.txt''], File (''00 1 2 3 4'' @ [CHR 0x0A])),
                   ([''d'', ''old.txt''], File ''cat''), ([''d'', ''new.txt''], File ''dog'')]
                  [''d'', ''labels''] [''d'', ''out''] [''d'', ''old.txt''] [''d'', ''new.txt''] False))
            [''d'', ''out''] [''d'', ''out2''] [''d'', ''new.txt''] [''d'', ''new.txt''] False))
          [''d'', ''out2'', ''a.txt'']
     = Some (File (''0 1 2 3 4'' @ [CHR 0x0A]))
   \<and> snd (remap_by_name
            [([''d''], Dir), ([''d'', ''labels''], Dir),
             ([''d'', ''labels'', ''a.txt''], File (''0 1 2 3 4'' @ [CHR 0x0A])),
             ([''d'', ''c.txt''], File ''0  a b c d'')]
            [''d'', ''labels''] [''d'', ''out''] [''d'', ''c.txt''] [''d'', ''c.txt''] False)
     = Inr \<lparr>files = 1, lines = 1, changed = 0, unchanged = 1\<rparr>
   \<and> snd (remap_by_name
            (fst (remap_by_name
                  [([''d''], Dir), ([''d'', ''labels''], Dir),
                   ([''d'', ''labels'', ''a.txt''], File (''0 1 2 3 4'' @ [CHR 0x0A])),
                   ([''d'', ''c.txt''], File ''0  a b c d'')]
                  [''d'', ''labels''] [''d'', ''out''] [''d'', ''c.txt''] [''d'', ''c.txt''] False))
            [''d'', ''out''] [''d'', ''out2''] [''d'', ''c.txt''] [''d'', ''c.txt''] False)
     = Inr \<lparr>files = 2, lines = 2, changed = 1, unchanged = 1\<rparr>
   \<and> snd (remap_by_name
            (fst (remap_by_name
                  [([''d''], Dir), ([''d'', ''labels''], Dir), ([''d'', ''out''], Dir),
                   ([''d'', ''out'', ''z.txt''], File (''00 1 2 3 4'' @ [CHR 0x0A])),
                   ([''d'', ''c.txt''], File ''cat'')]
                  [''d'', ''labels''] [''d'', ''out''] [''d'', ''c.txt''] [''d'', ''c.txt''] False))
            [''d'', ''out''] [''d'', ''out2''] [''d'', ''c.txt''] [''d'', ''c.txt''] False)
     = Inr \<lparr>files = 2, lines = 2, changed = 1, unchanged = 1\<rparr>"
  by code_simp

section \<open>Properties of the sequential renamer\<close>

subsection \<open>The extension list of the command line\<close>

lemma main_ignores_extensions: "main fs (a\<lparr>extensions := e\<rparr>) = main fs a"
  by (simp add: main_def split: sum.splits prod.splits)

text \<open>C3. The claim holds for the built-in set only: the extension list given on
  the command line never reaches \<open>rename_images\<close>. With \<open>--extensions .heic\<close> a
  directory holding \<open>a.heic\<close> is reported to contain no image files and is left
  as it was.\<close>

theorem extensions_option_not_used:
  "main [([''pics''], Dir), ([''pics'', ''a.heic''], File ''H'')]
        \<lparr>directory = [''pics''], start = 1, prefix = ''image'', dry_run = False,
         extensions = [''.heic'']\<rparr>
     = Inr ([([''pics''], Dir), ([''pics'', ''a.heic''], File ''H'')],
            [''Starting image renaming process...'', ''Directory: /pics'', ''Start number: 1'',
             ''Prefix: image'', ''Dry run: False'',
             ''--------------------------------------------------'',
             ''No image files found in the directory.''])"
  by code_simp

subsection \<open>The preview mode\<close>

lemma rename_loop_dry_run:
  "rename_loop d start_number pre True padding fs renamed_count out xs = (fs', cnt', out')
   \<Longrightarrow> fs' = fs \<and> cnt' = renamed_count"
proof (induction xs arbitrary: out)
  case Nil
  then show ?case by simp
next
  case (Cons x xs)
  obtain i f where x: "x = (i, f)" by (cases x)
  show ?case
  proof (cases "exists fs (d @ [pre @ ''_'' @ zfill padding (str (start_number + int i)) @ suffix f])
                 \<and> d @ [f] \<noteq> d @ [pre @ ''_'' @ zfill padding (str (start_number + int i)) @ suffix f]")
    case True
    with Cons.prems x
    have "\<exists>out2. rename_loop d start_number pre True padding fs renamed_count out2 xs = (fs', cnt', out')"
      by (auto simp: Let_def)
    with Cons.IH show ?thesis by blast
  next
    case False
    with Cons.prems x
    have "\<exists>out2. rename_loop d start_number pre True padding fs renamed_count out2 xs = (fs', cnt', out')"
      by (auto simp: Let_def)
    with Cons.IH show ?thesis by blast
  qed
qed

text \<open>C4. The preview leaves the file system as it is, but its summary line
  counts the files renamed, which in a preview is none: for the three pictures of
  the example it reports 0 where the run proper reports 3.\<close>

theorem dry_run_summary_reports_zero:
  "(case rename_images example_pics [''pics''] 1 ''img'' True of
      Inl e \<Rightarrow> False
    | Inr (fs', out) \<Rightarrow>
        fs' = example_pics \<and>
        last out = [CHR 0x0A] @ ''Dry run complete. Would rename 0 file(s).'')
   \<and> (case rename_images example_pics [''pics''] 1 ''img'' False of
      Inl e \<Rightarrow> False
    | Inr (fs', out) \<Rightarrow>
        last out = [CHR 0x0A] @ ''Renaming complete. Successfully renamed 3 file(s).'')"
  by code_simp

subsection \<open>The names given\<close>

text \<open>The claim of C5 as stated fails when a name to be given is taken: \<open>a.jpg\<close> is
  to become \<open>image_1.jpg\<close>, which exists, so it is skipped and keeps its name,
  while \<open>image_1.jpg\<close> becomes \<open>image_2.jpg\<close>.\<close>

theorem taken_name_is_skipped:
  "(case rename_images [([''p''], Dir), ([''p'', ''a.jpg''], File ''A''),
                        ([''p'', ''image_1.jpg''], File ''B'')] [''p''] 1 ''image'' False of
      Inl e \<Rightarrow> False
    | Inr (fs', out) \<Rightarrow>
        lookup fs' [''p'', ''a.jpg''] = Some (File ''A'') \<and>
        lookup fs' [''p'', ''image_1.jpg''] = None \<and>
        lookup fs' [''p'', ''image_2.jpg''] = Some (File ''B'') \<and>
        \<not> renamed_in_order [([''p''], Dir), ([''p'', ''a.jpg''], File ''A''),
                              ([''p'', ''image_1.jpg''], File ''B'')] fs' [''p''] ''image'' 1)"
  by code_simp

subsection \<open>Suffixes and numbers in names\<close>

lemma split_last_dot:
  assumes "CHR ''.'' \<in> set nm"
  obtains s r where "nm = s @ CHR ''.'' # r" and "CHR ''.'' \<notin> set r"
    and "rev (drop 1 (dropWhile (\<lambda>c. c \<noteq> CHR ''.'') (rev nm))) = s"
proof -
  let ?P = "\<lambda>c. c \<noteq> CHR ''.''"
  from assms have "dropWhile ?P (rev nm) \<noteq> []" by (simp add: dropWhile_eq_Nil_conv)
  then obtain x xs where d: "dropWhile ?P (rev nm) = x # xs" by (cases "dropWhile ?P (rev nm)") auto
  with hd_dropWhile[of ?P "rev nm"] have x: "x = CHR ''.''" by simp
  have "rev nm = takeWhile ?P (rev nm) @ dropWhile ?P (rev nm)" by simp
  with d x have "rev nm = takeWhile ?P (rev nm) @ CHR ''.'' # xs" by simp
  then have "rev (rev nm) = rev (takeWhile ?P (rev nm) @ CHR ''.'' # xs)" by simp
  then have n: "nm = rev xs @ CHR ''.'' # rev (takeWhile ?P (rev nm))" by simp
  have "CHR ''.'' \<notin> set (takeWhile ?P (rev nm))"
  proof
    assume "CHR ''.'' \<in> set (takeWhile ?P (rev nm))"
    then have "?P (CHR ''.'')" by (rule set_takeWhileD[THEN conjunct2])
    then show False by simp
  qed
  then have r: "CHR ''.'' \<notin> set (rev (takeWhile ?P (rev nm)))" by simp
  from d x have "rev (drop 1 (dropWhile ?P (rev nm))) = rev xs" by simp
  with n r that show thesis by blast
qed

lemma suffix_shape:
  assumes "suffix nm \<noteq> []"
  obtains r where "suffix nm = CHR ''.'' # r" and "r \<noteq> []" and "CHR ''.'' \<notin> set r"
proof -
  from assms have dot: "CHR ''.'' \<in> set nm" by (auto simp: suffix_def Let_def split: if_splits)
  then obtain s r where n: "nm = s @ CHR ''.'' # r" and r: "CHR ''.'' \<notin> set r"
    and st: "rev (drop 1 (dropWhile (\<lambda>c. c \<noteq> CHR ''.'') (rev nm))) = s"
    by (rule split_last_dot)
  from n have dr: "drop (length s) nm = CHR ''.'' # r" by simp
  have sx: "suffix nm = (if CHR ''.'' \<in> set nm \<and> s \<noteq> [] \<and> 1 < length (CHR ''.'' # r)
                         then CHR ''.'' # r else [])"
    unfolding suffix_def Let_def st dr by (rule refl)
  with assms have c: "CHR ''.'' \<in> set nm \<and> s \<noteq> [] \<and> 1 < length (CHR ''.'' # r)"
    by (metis (full_types))
  with sx have "suffix nm = CHR ''.'' # r" by simp
  moreover from c have "r \<noteq> []" by auto
  ultimately show thesis using r that by blast
qed

lemma suffix_append:
  assumes "s \<noteq> []" and "r \<noteq> []" and "CHR ''.'' \<notin> set r"
  shows "suffix (s @ CHR ''.'' # r) = CHR ''.'' # r"
proof -
  let ?P = "\<lambda>c. c \<noteq> CHR ''.''"
  have "rev (s @ CHR ''.'' # r) = rev r @ CHR ''.'' # rev s" by simp
  moreover have "dropWhile ?P (rev r @ CHR ''.'' # rev s) = CHR ''.'' # rev s"
  proof -
    have "\<And>x. x \<in> set (rev r) \<Longrightarrow> ?P x" using assms(3) by auto
    then have "dropWhile ?P (rev r @ CHR ''.'' # rev s) = dropWhile ?P (CHR ''.'' # rev s)"
      by (rule dropWhile_append2)
    then show ?thesis by simp
  qed
  ultimately have st: "rev (drop 1 (dropWhile ?P (rev (s @ CHR ''.'' # r)))) = s" by simp
  have dr: "drop (length s) (s @ CHR ''.'' # r) = CHR ''.'' # r" by simp
  have "suffix (s @ CHR ''.'' # r)
          = (if CHR ''.'' \<in> set (s @ CHR ''.'' # r) \<and> s \<noteq> [] \<and> 1 < length (CHR ''.'' # r)
             then CHR ''.'' # r else [])"
    unfolding suffix_def Let_def st dr by (rule refl)
  with assms(1,2) show ?thesis by simp
qed

lemma parse_unsigned_digits:
  assumes "s \<noteq> []" and "\<forall>c\<in>set s. isdigit c"
  shows "parse_unsigned s = Some (foldl (\<lambda>a c. 10 * a + digit_val c) 0 s)"
proof -
  from assms(1) obtain c cs where s: "s = c # cs" by (cases s) auto
  with assms(2) have c: "isdigit c" and r: "\<forall>c\<in>set cs. isdigit c" by simp_all
  have "parse_unsigned (c # cs) = parse_digits (digit_val c) cs"
    using c by (simp add: parse_unsigned_def)
  also have "\<dots> = Some (foldl (\<lambda>a c. 10 * a + digit_val c) (digit_val c) cs)"
    using r by (rule parse_digits_digits)
  finally show ?thesis using s by simp
qed

lemma foldl_zeros: "foldl (\<lambda>a c. 10 * a + digit_val c) 0 (replicate k CHR ''0'') = 0"
  by (induction k) (simp_all add: digit_val_def ord_def)

lemma parse_unsigned_padded:
  "parse_unsigned (replicate k CHR ''0'' @ str_nat m) = Some m"
proof -
  have z: "isdigit CHR ''0''" by (simp add: isdigit_def ord_def)
  have "\<forall>c\<in>set (replicate k CHR ''0'' @ str_nat m). isdigit c"
    using z str_nat_digits[of m] by auto
  moreover have "replicate k CHR ''0'' @ str_nat m \<noteq> []" by (simp add: str_nat_nonempty)
  ultimately have "parse_unsigned (replicate k CHR ''0'' @ str_nat m)
      = Some (foldl (\<lambda>a c. 10 * a + digit_val c) 0 (replicate k CHR ''0'' @ str_nat m))"
    by (rule parse_unsigned_digits[rotated])
  then show ?thesis by (simp add: foldl_zeros foldl_str_nat)
qed

lemma padded_no_space: "\<forall>c\<in>set (replicate k CHR ''0'' @ str_nat m). \<not> isspace c"
proof -
  have z: "isdigit CHR ''0''" by (simp add: isdigit_def ord_def)
  have "\<forall>c\<in>set (replicate k CHR ''0'' @ str_nat m). isdigit c"
    using z str_nat_digits[of m] by auto
  then show ?thesis using isdigit_not_space by blast
qed

lemma padded_hd_digit:
  "\<exists>c cs. replicate k CHR ''0'' @ str_nat m = c # cs \<and> isdigit c"
proof -
  have z: "isdigit CHR ''0''" by (simp add: isdigit_def ord_def)
  have a: "\<forall>c\<in>set (replicate k CHR ''0'' @ str_nat m). isdigit c"
    using z str_nat_digits[of m] by auto
  obtain c cs where e: "replicate k CHR ''0'' @ str_nat m = c # cs"
    using str_nat_nonempty[of m] by (cases "replicate k CHR ''0'' @ str_nat m") auto
  with a have "isdigit c" by (metis list.set_intros(1))
  with e show ?thesis by blast
qed

lemma py_int_zfill: "py_int (zfill width (str n)) = Some n"
proof (cases "n < 0")
  case False
  obtain c cs where s: "str_nat (nat n) = c # cs"
    using str_nat_nonempty[of "nat n"] by (cases "str_nat (nat n)") auto
  from str_nat_digits[of "nat n"] s have c: "isdigit c" by simp
  have m: "\<not> isdigit CHR ''-''" and p: "\<not> isdigit CHR ''+''" by (simp_all add: isdigit_def ord_def)
  from c m p have cs: "c \<noteq> CHR ''+''" "c \<noteq> CHR ''-''" by auto
  let ?k = "width - length (str_nat (nat n))"
  from False s cs have z: "zfill width (str n) = replicate ?k CHR ''0'' @ str_nat (nat n)"
    by (simp add: zfill_def str_def)
  obtain e es where e: "replicate ?k CHR ''0'' @ str_nat (nat n) = e # es" and ed: "isdigit e"
    using padded_hd_digit by blast
  from ed m p have en: "e \<noteq> CHR ''-''" "e \<noteq> CHR ''+''" by auto
  have "strip (replicate ?k CHR ''0'' @ str_nat (nat n)) = replicate ?k CHR ''0'' @ str_nat (nat n)"
    using padded_no_space by (rule strip_nospace)
  with e have st: "strip (zfill width (str n)) = e # es" using z by simp
  have "parse_unsigned (e # es) = Some (nat n)" using parse_unsigned_padded[of ?k "nat n"] e by simp
  with st en False show ?thesis by (simp add: py_int_def)
next
  case True
  let ?m = "nat (- n)"
  let ?k = "width - length (CHR ''-'' # str_nat ?m)"
  from True have z: "zfill width (str n) = CHR ''-'' # replicate ?k CHR ''0'' @ str_nat ?m"
    by (simp add: zfill_def str_def)
  have ms: "\<not> isspace CHR ''-''" by (simp add: isspace_def ord_def)
  have "\<forall>c\<in>set (CHR ''-'' # replicate ?k CHR ''0'' @ str_nat ?m). \<not> isspace c"
    using ms padded_no_space[of ?k ?m] by simp
  then have "strip (CHR ''-'' # replicate ?k CHR ''0'' @ str_nat ?m)
               = CHR ''-'' # replicate ?k CHR ''0'' @ str_nat ?m" by (rule strip_nospace)
  with z have st: "strip (zfill width (str n)) = CHR ''-'' # replicate ?k CHR ''0'' @ str_nat ?m"
    by simp
  from True have "- int ?m = n" by simp
  with st parse_unsigned_padded[of ?k ?m] show ?thesis by (simp add: py_int_def)
qed

lemma zfill_no_dot: "CHR ''.'' \<notin> set (zfill width (str n))"
proof -
  have d: "\<not> isdigit CHR ''.''" by (simp add: isdigit_def ord_def)
  have z: "isdigit CHR ''0''" by (simp add: isdigit_def ord_def)
  have a: "\<And>m. CHR ''.'' \<notin> set (str_nat m)" using str_nat_digits d by blast
  show ?thesis
  proof (cases "n < 0")
    case True
    then have "zfill width (str n)
                 = CHR ''-'' # replicate (width - length (CHR ''-'' # str_nat (nat (- n)))) CHR ''0''
                     @ str_nat (nat (- n))"
      by (simp add: zfill_def str_def)
    with a show ?thesis by simp
  next
    case False
    obtain c cs where s: "str_nat (nat n) = c # cs"
      using str_nat_nonempty[of "nat n"] by (cases "str_nat (nat n)") auto
    from str_nat_digits[of "nat n"] s have c: "isdigit c" by simp
    have m: "\<not> isdigit CHR ''-''" and p: "\<not> isdigit CHR ''+''" by (simp_all add: isdigit_def ord_def)
    from c m p have cs: "c \<noteq> CHR ''+''" "c \<noteq> CHR ''-''" by auto
    from False s cs have "zfill width (str n)
        = replicate (width - length (str_nat (nat n))) CHR ''0'' @ str_nat (nat n)"
      by (simp add: zfill_def str_def)
    with a show ?thesis by simp
  qed
qed

lemma length_target_names: "length (target_names imgs pre s) = length imgs"
  by (simp add: target_names_def Let_def)

lemma target_names_nth:
  "k < length imgs \<Longrightarrow>
   target_names imgs pre s ! k
     = pre @ ''_'' @ zfill (length (str (s + int (length imgs) - 1))) (str (s + int k))
         @ suffix (imgs ! k)"
  by (simp add: target_names_def Let_def nth_enumerate_eq)

lemma number_before_suffix:
  assumes "z @ e = z' @ e'" and "CHR ''.'' \<notin> set z" and "CHR ''.'' \<notin> set z'"
      and "e = CHR ''.'' # r" and "e' = CHR ''.'' # r'"
  shows "z = z'"
proof -
  let ?P = "\<lambda>c. c \<noteq> CHR ''.''"
  have a: "takeWhile ?P (z @ CHR ''.'' # r) = takeWhile ?P z" by (rule takeWhile_tail) simp
  have b: "takeWhile ?P (z' @ CHR ''.'' # r') = takeWhile ?P z'" by (rule takeWhile_tail) simp
  from assms(2) have tz: "takeWhile ?P z = z" by (auto simp: takeWhile_eq_all_conv)
  from assms(3) have tz': "takeWhile ?P z' = z'" by (auto simp: takeWhile_eq_all_conv)
  from a tz have A: "takeWhile ?P (z @ e) = z" unfolding assms(4) by (rule trans)
  from b tz' have B: "takeWhile ?P (z' @ e') = z'" unfolding assms(5) by (rule trans)
  from A have "takeWhile ?P (z' @ e') = z" unfolding assms(1) .
  with B show ?thesis by simp
qed

lemma target_names_distinct:
  assumes "\<forall>f\<in>set imgs. suffix f \<noteq> []"
  shows "distinct (target_names imgs pre s)"
proof -
  let ?w = "length (str (s + int (length imgs) - 1))"
  have "\<And>i j. i < length imgs \<Longrightarrow> j < length imgs \<Longrightarrow>
          target_names imgs pre s ! i = target_names imgs pre s ! j \<Longrightarrow> i = j"
  proof -
    fix i j assume i: "i < length imgs" and j: "j < length imgs"
      and e: "target_names imgs pre s ! i = target_names imgs pre s ! j"
    from i assms have "suffix (imgs ! i) \<noteq> []" by simp
    then obtain r where r: "suffix (imgs ! i) = CHR ''.'' # r" by (rule suffix_shape)
    from j assms have "suffix (imgs ! j) \<noteq> []" by simp
    then obtain r' where r': "suffix (imgs ! j) = CHR ''.'' # r'" by (rule suffix_shape)
    from e i j have "zfill ?w (str (s + int i)) @ suffix (imgs ! i)
                       = zfill ?w (str (s + int j)) @ suffix (imgs ! j)"
      by (simp add: target_names_nth)
    then have "zfill ?w (str (s + int i)) = zfill ?w (str (s + int j))"
      using zfill_no_dot zfill_no_dot r r' by (rule number_before_suffix)
    then have "py_int (zfill ?w (str (s + int i))) = py_int (zfill ?w (str (s + int j)))" by simp
    then show "i = j" by (simp add: py_int_zfill)
  qed
  then show ?thesis
    unfolding distinct_conv_nth length_target_names by blast
qed

subsection \<open>The listing of image files\<close>

lemma mem_listdir: "f \<in> set (listdir fs d) \<longleftrightarrow> d @ [f] \<in> fst ` set fs"
proof
  assume "f \<in> set (listdir fs d)"
  then obtain p n where p: "(p, n) \<in> set fs" "p \<noteq> []" "butlast p = d" and f: "f = name p"
    by (auto simp: listdir_def iterdir_def)
  from p(2) have "p = butlast p @ [last p]" by simp
  with p f have "p = d @ [f]" by (simp add: name_def)
  with p(1) show "d @ [f] \<in> fst ` set fs" by force
next
  assume "d @ [f] \<in> fst ` set fs"
  then obtain n where "(d @ [f], n) \<in> set fs" by auto
  then have "d @ [f] \<in> set (iterdir fs d)" by (auto simp: iterdir_def)
  then have "name (d @ [f]) \<in> set (listdir fs d)" unfolding listdir_def by simp
  then show "f \<in> set (listdir fs d)" by (simp add: name_def)
qed

lemma is_file_listed: "is_file fs (d @ [f]) \<Longrightarrow> f \<in> set (listdir fs d)"
proof -
  assume "is_file fs (d @ [f])"
  then obtain c where "lookup fs (d @ [f]) = Some (File c)"
    by (auto simp: is_file_def split: option.splits node.splits)
  then have "map_of fs (d @ [f]) = Some (File c)" by (simp add: lookup_def)
  then have "(d @ [f], File c) \<in> set fs" by (rule map_of_SomeD)
  then have "d @ [f] \<in> fst ` set fs" by force
  then show ?thesis by (simp add: mem_listdir)
qed

lemma mem_image_files:
  "f \<in> set (image_files fs d)
     \<longleftrightarrow> is_file fs (d @ [f]) \<and> lower (suffix f) \<in> set image_extensions"
  using is_file_listed[of fs d f] by (auto simp: image_files_def)

lemma distinct_listdir: "distinct (listdir fs d)"
proof -
  have "inj_on name (set (iterdir fs d))"
  proof (rule inj_onI)
    fix p q assume p: "p \<in> set (iterdir fs d)" and q: "q \<in> set (iterdir fs d)"
      and e: "name p = name q"
    from p have p1: "p \<noteq> []" "butlast p = d" by (auto simp: iterdir_def)
    from q have q1: "q \<noteq> []" "butlast q = d" by (auto simp: iterdir_def)
    from p1 have "p = d @ [last p]" by (metis append_butlast_last_id)
    moreover from q1 have "q = d @ [last q]" by (metis append_butlast_last_id)
    moreover from e p1 q1 have "last p = last q" by (simp add: name_def)
    ultimately show "p = q" by simp
  qed
  moreover have "distinct (iterdir fs d)" by (simp add: iterdir_def)
  ultimately show ?thesis unfolding listdir_def by (simp add: distinct_map)
qed

lemma distinct_image_files: "distinct (image_files fs d)"
  using distinct_listdir[of fs d] by (simp add: image_files_def)

lemma image_file_suffix: "f \<in> set (image_files fs d) \<Longrightarrow> suffix f \<noteq> []"
proof
  assume "f \<in> set (image_files fs d)" and "suffix f = []"
  then have "[] \<in> set image_extensions" by (simp add: mem_image_files lower_def)
  then show False by (simp add: image_extensions_def)
qed

lemma image_file_is_file:
  "f \<in> set (image_files fs d) \<Longrightarrow> \<exists>c. lookup fs (d @ [f]) = Some (File c)"
  by (auto simp: mem_image_files is_file_def split: option.splits node.splits)

subsection \<open>The renaming loop\<close>

lemma given_name_of_source:
  assumes ok: "renaming_ok fs d imgs tgts"
      and "k < length imgs" and "n < length imgs" and "tgts ! n = imgs ! k"
  shows "k \<le> n"
proof -
  from ok have di: "distinct imgs"
    and fl: "\<forall>f\<in>set imgs. \<exists>c. lookup fs (d @ [f]) = Some (File c)"
    and h: "\<forall>k<length imgs. exists fs (d @ [tgts ! k]) \<longrightarrow> tgts ! k \<in> set (take (Suc k) imgs)"
    by (simp_all add: renaming_ok_def)
  from assms(2) have "imgs ! k \<in> set imgs" by simp
  with fl obtain c where "lookup fs (d @ [imgs ! k]) = Some (File c)" by blast
  with assms(4) have "exists fs (d @ [tgts ! n])" by (simp add: exists_def)
  with h assms(3) have "tgts ! n \<in> set (take (Suc n) imgs)" by blast
  then obtain j where j: "j < length (take (Suc n) imgs)" and e: "take (Suc n) imgs ! j = tgts ! n"
    by (metis in_set_conv_nth)
  from j have jn: "j \<le> n" and jl: "j < length imgs" by simp_all
  from e jn have "imgs ! j = tgts ! n" by simp
  with assms(4) have "imgs ! j = imgs ! k" by simp
  with di assms(2) jl have "j = k" by (simp add: nth_eq_iff_index_eq)
  with jn show ?thesis by simp
qed

lemma moved_source_in_place:
  assumes ok: "renaming_ok fs d imgs tgts" and "k < length imgs"
  shows "n \<le> k \<Longrightarrow> moved fs d imgs tgts n (d @ [imgs ! k]) = lookup fs (d @ [imgs ! k])"
proof (induction n)
  case 0
  show ?case by simp
next
  case (Suc n)
  from Suc.prems have nk: "n < k" by simp
  with assms(2) have nl: "n < length imgs" by simp
  from ok have di: "distinct imgs" by (simp add: renaming_ok_def)
  from di nk nl assms(2) have a: "imgs ! k \<noteq> imgs ! n" by (simp add: nth_eq_iff_index_eq)
  have b: "imgs ! k \<noteq> tgts ! n"
  proof
    assume "imgs ! k = tgts ! n"
    then have "tgts ! n = imgs ! k" by simp
    with ok assms(2) nl have "k \<le> n" by (rule given_name_of_source)
    with nk show False by simp
  qed
  from Suc.IH nk a b show ?case by simp
qed

lemma moved_source_gone:
  assumes ok: "renaming_ok fs d imgs tgts"
  shows "k < n \<Longrightarrow> n \<le> length imgs \<Longrightarrow> \<forall>i<n. tgts ! i \<noteq> imgs ! k \<Longrightarrow>
         moved fs d imgs tgts n (d @ [imgs ! k]) = None"
proof (induction n)
  case 0
  then show ?case by simp
next
  case (Suc n)
  from Suc.prems have nl: "n < length imgs" by simp
  from ok have di: "distinct imgs" by (simp add: renaming_ok_def)
  from Suc.prems(3) have a: "imgs ! k \<noteq> tgts ! n" by auto
  show ?case
  proof (cases "k = n")
    case True
    with a show ?thesis by simp
  next
    case False
    with Suc.prems have kn: "k < n" by simp
    with di nl have b: "imgs ! k \<noteq> imgs ! n" by (simp add: nth_eq_iff_index_eq)
    from Suc.prems(3) have "\<forall>i<n. tgts ! i \<noteq> imgs ! k" by simp
    with Suc.IH kn nl have "moved fs d imgs tgts n (d @ [imgs ! k]) = None" by simp
    with a b show ?thesis by simp
  qed
qed

lemma moved_target_untaken:
  assumes ok: "renaming_ok fs d imgs tgts" and "k < length imgs"
      and "\<not> exists fs (d @ [tgts ! k])"
  shows "n \<le> k \<Longrightarrow> moved fs d imgs tgts n (d @ [tgts ! k]) = None"
proof (induction n)
  case 0
  from assms(3) show ?case by (simp add: exists_def)
next
  case (Suc n)
  from Suc.prems have nk: "n < k" by simp
  from ok have dt: "distinct tgts" and len: "length tgts = length imgs"
    by (simp_all add: renaming_ok_def)
  from dt nk assms(2) len have a: "tgts ! k \<noteq> tgts ! n" by (simp add: nth_eq_iff_index_eq)
  from Suc.IH nk a show ?case by simp
qed

lemma moved_target_free:
  assumes ok: "renaming_ok fs d imgs tgts" and kl: "k < length imgs" and ne: "tgts ! k \<noteq> imgs ! k"
  shows "moved fs d imgs tgts k (d @ [tgts ! k]) = None"
proof (cases "exists fs (d @ [tgts ! k])")
  case False
  with ok kl show ?thesis by (intro moved_target_untaken) simp_all
next
  case True
  from ok have dt: "distinct tgts" and len: "length tgts = length imgs"
    and h: "\<forall>k<length imgs. exists fs (d @ [tgts ! k]) \<longrightarrow> tgts ! k \<in> set (take (Suc k) imgs)"
    by (simp_all add: renaming_ok_def)
  from h kl True have "tgts ! k \<in> set (take (Suc k) imgs)" by blast
  then obtain j where j: "j < length (take (Suc k) imgs)" and e: "take (Suc k) imgs ! j = tgts ! k"
    by (metis in_set_conv_nth)
  from j have jk: "j \<le> k" by simp
  from e jk have ej: "imgs ! j = tgts ! k" by simp
  with ne have "j \<noteq> k" by auto
  with jk have jl: "j < k" by simp
  have "\<forall>i<k. tgts ! i \<noteq> imgs ! j"
  proof (intro allI impI)
    fix i assume ik: "i < k"
    with dt kl len have "tgts ! i \<noteq> tgts ! k" by (simp add: nth_eq_iff_index_eq)
    with ej show "tgts ! i \<noteq> imgs ! j" by simp
  qed
  with moved_source_gone[OF ok jl] kl have "moved fs d imgs tgts k (d @ [imgs ! j]) = None" by simp
  with ej show ?thesis by simp
qed

lemma moved_target_holds:
  assumes ok: "renaming_ok fs d imgs tgts"
  shows "k < n \<Longrightarrow> n \<le> length imgs \<Longrightarrow>
         moved fs d imgs tgts n (d @ [tgts ! k]) = lookup fs (d @ [imgs ! k])"
proof (induction n)
  case 0
  then show ?case by simp
next
  case (Suc n)
  from Suc.prems have nl: "n < length imgs" by simp
  show ?case
  proof (cases "k = n")
    case True
    then show ?thesis by simp
  next
    case False
    with Suc.prems have kn: "k < n" by simp
    with nl have kl: "k < length imgs" by simp
    from ok have dt: "distinct tgts" and len: "length tgts = length imgs"
      by (simp_all add: renaming_ok_def)
    from dt kn kl nl len have a: "tgts ! k \<noteq> tgts ! n" by (simp add: nth_eq_iff_index_eq)
    have b: "tgts ! k \<noteq> imgs ! n"
    proof
      assume "tgts ! k = imgs ! n"
      with ok nl kl have "n \<le> k" by (rule given_name_of_source)
      with kn show False by simp
    qed
    from Suc.IH[OF kn] nl a b show ?thesis by simp
  qed
qed

lemma moved_elsewhere:
  "\<forall>k<n. q \<noteq> d @ [imgs ! k] \<and> q \<noteq> d @ [tgts ! k] \<Longrightarrow> moved fs d imgs tgts n q = lookup fs q"
  by (induction n) simp_all

lemma lookup_filter_neq:
  "src \<noteq> [] \<Longrightarrow>
   lookup (filter (\<lambda>(q, _). q \<noteq> src) fs) q = (if q = src then None else lookup fs q)"
  by (simp add: lookup_def map_of_filter_neq)

lemma os_rename_same: "lookup fs src = Some n \<Longrightarrow> os_rename fs src src = Inr fs"
  by (simp add: os_rename_def)

lemma os_rename_lookup:
  assumes "lookup fs src = Some n" and "src \<noteq> []" and "dst \<noteq> []" and "src \<noteq> dst"
      and "lookup fs dst = None"
  shows "\<exists>fs'. os_rename fs src dst = Inr fs' \<and> lookup fs' = (lookup fs)(src := None, dst := Some n)"
proof -
  let ?fs' = "fs_put (filter (\<lambda>(q, _). q \<noteq> src) fs) dst n"
  from assms(5) have "\<not> is_dir fs dst" by (simp add: is_dir_def)
  with assms(1,4) have r: "os_rename fs src dst = Inr ?fs'" by (simp add: os_rename_def)
  have "lookup ?fs' = (lookup fs)(src := None, dst := Some n)"
  proof
    fix q
    show "lookup ?fs' q = ((lookup fs)(src := None, dst := Some n)) q"
    proof (cases "q = []")
      case True
      with assms(2,3) show ?thesis by (simp add: lookup_root)
    next
      case False
      with assms(2) show ?thesis by (simp add: lookup_fs_put lookup_filter_neq)
    qed
  qed
  with r show ?thesis by blast
qed

lemma rename_loop_moved:
  assumes ok: "renaming_ok fs d imgs tgts"
      and tg: "\<forall>k<length imgs. tgts ! k = pre @ ''_'' @ zfill w (str (s + int k)) @ suffix (imgs ! k)"
  shows "m = length imgs - k \<Longrightarrow> k \<le> length imgs \<Longrightarrow> lookup fs_cur = moved fs d imgs tgts k \<Longrightarrow>
         \<exists>fs_end out'.
           rename_loop d s pre False w fs_cur cnt out (enumerate k (drop k imgs))
             = (fs_end, cnt + (length imgs - k), out')
           \<and> lookup fs_end = moved fs d imgs tgts (length imgs)"
proof (induction m arbitrary: k fs_cur cnt out)
  case 0
  then have "k = length imgs" by simp
  with "0.prems"(3) show ?case by simp
next
  case (Suc m)
  from Suc.prems(1) have kl: "k < length imgs" by simp
  let ?f = "imgs ! k"
  let ?nf = "pre @ ''_'' @ zfill w (str (s + int k)) @ suffix ?f"
  from tg kl have tk: "tgts ! k = ?nf" by blast
  from kl have dr: "drop k imgs = ?f # drop (Suc k) imgs" by (simp add: Cons_nth_drop_Suc)
  then have en: "enumerate k (drop k imgs) = (k, ?f) # enumerate (Suc k) (drop (Suc k) imgs)"
    by simp
  from ok kl have "imgs ! k \<in> set imgs" by simp
  with ok obtain c where c: "lookup fs (d @ [?f]) = Some (File c)"
    by (auto simp: renaming_ok_def)
  from moved_source_in_place[OF ok kl, of k] Suc.prems(3) c
  have src: "lookup fs_cur (d @ [?f]) = Some (File c)" by simp
  have "\<exists>fs1 msg. rename_loop d s pre False w fs_cur cnt out (enumerate k (drop k imgs))
                    = rename_loop d s pre False w fs1 (cnt + 1) (out @ [msg])
                        (enumerate (Suc k) (drop (Suc k) imgs))
                  \<and> lookup fs1 = moved fs d imgs tgts (Suc k)"
  proof (cases "?nf = ?f")
    case True
    from src True have r: "os_rename fs_cur (d @ [?f]) (d @ [?nf]) = Inr fs_cur"
      by (simp add: os_rename_same)
    have "rename_loop d s pre False w fs_cur cnt out ((k, ?f) # enumerate (Suc k) (drop (Suc k) imgs))
            = rename_loop d s pre False w fs_cur (cnt + 1)
                (out @ [''Renamed: '' @ [CHR 0x27] @ ?f @ [CHR 0x27] @ '' -> ''
                          @ [CHR 0x27] @ ?nf @ [CHR 0x27]])
                (enumerate (Suc k) (drop (Suc k) imgs))"
      using True r by (simp add: Let_def)
    moreover have "lookup fs_cur = moved fs d imgs tgts (Suc k)"
    proof
      fix q
      from True tk have "tgts ! k = ?f" by simp
      then show "lookup fs_cur q = moved fs d imgs tgts (Suc k) q"
        using Suc.prems(3) src c by simp
    qed
    ultimately show ?thesis unfolding en by blast
  next
    case False
    with tk have ne: "tgts ! k \<noteq> imgs ! k" by simp
    from moved_target_free[OF ok kl ne] Suc.prems(3) tk
    have free: "lookup fs_cur (d @ [?nf]) = None" by simp
    then have nx: "\<not> exists fs_cur (d @ [?nf])"
      by (simp add: exists_def)
    from False have pne: "d @ [?f] \<noteq> d @ [?nf]" by simp
    from os_rename_lookup[OF src _ _ pne free]
    obtain fs1 where r: "os_rename fs_cur (d @ [?f]) (d @ [?nf]) = Inr fs1"
      and l1: "lookup fs1 = (lookup fs_cur)(d @ [?f] := None, d @ [?nf] := Some (File c))"
      by auto
    have "rename_loop d s pre False w fs_cur cnt out ((k, ?f) # enumerate (Suc k) (drop (Suc k) imgs))
            = rename_loop d s pre False w fs1 (cnt + 1)
                (out @ [''Renamed: '' @ [CHR 0x27] @ ?f @ [CHR 0x27] @ '' -> ''
                          @ [CHR 0x27] @ ?nf @ [CHR 0x27]])
                (enumerate (Suc k) (drop (Suc k) imgs))"
      using nx r by (simp add: Let_def)
    moreover have "lookup fs1 = moved fs d imgs tgts (Suc k)"
      using l1 Suc.prems(3) tk c by simp
    ultimately show ?thesis unfolding en by blast
  qed
  then obtain fs1 msg where
    st: "rename_loop d s pre False w fs_cur cnt out (enumerate k (drop k imgs))
           = rename_loop d s pre False w fs1 (cnt + 1) (out @ [msg])
               (enumerate (Suc k) (drop (Suc k) imgs))"
    and l1: "lookup fs1 = moved fs d imgs tgts (Suc k)" by blast
  from Suc.prems(1) have m: "m = length imgs - Suc k" by simp
  from kl have k1: "Suc k \<le> length imgs" by simp
  from Suc.IH[OF m k1 l1, of "cnt + 1" "out @ [msg]"] obtain fs_end out' where
    "rename_loop d s pre False w fs1 (cnt + 1) (out @ [msg]) (enumerate (Suc k) (drop (Suc k) imgs))
       = (fs_end, cnt + 1 + (length imgs - Suc k), out')"
    and e: "lookup fs_end = moved fs d imgs tgts (length imgs)" by blast
  with st kl have "rename_loop d s pre False w fs_cur cnt out (enumerate k (drop k imgs))
                     = (fs_end, cnt + (length imgs - k), out')" by simp
  with e show ?case by blast
qed

subsection \<open>A run without collisions\<close>

lemma target_suffix:
  assumes "suffix f \<noteq> []"
  shows "suffix (pre @ ''_'' @ z @ suffix f) = suffix f"
proof -
  from assms obtain r where r: "suffix f = CHR ''.'' # r" "r \<noteq> []" "CHR ''.'' \<notin> set r"
    by (rule suffix_shape)
  have "pre @ ''_'' @ z \<noteq> []" by simp
  from suffix_append[OF this r(2) r(3)] r(1) show ?thesis by simp
qed

lemma renaming_ok_image_files:
  assumes "free_targets fs d pre s"
  shows "renaming_ok fs d (image_files fs d) (target_names (image_files fs d) pre s)"
proof -
  let ?imgs = "image_files fs d"
  let ?tgts = "target_names ?imgs pre s"
  have 1: "length ?tgts = length ?imgs" by (rule length_target_names)
  have 2: "distinct ?imgs" by (rule distinct_image_files)
  have "\<forall>f\<in>set ?imgs. suffix f \<noteq> []" using image_file_suffix by blast
  then have 3: "distinct ?tgts" by (rule target_names_distinct)
  have 4: "\<forall>f\<in>set ?imgs. \<exists>c. lookup fs (d @ [f]) = Some (File c)"
    using image_file_is_file by blast
  from assms have 5: "\<forall>k<length ?imgs. exists fs (d @ [?tgts ! k])
                        \<longrightarrow> ?tgts ! k \<in> set (take (Suc k) ?imgs)"
    by (simp add: free_targets_def Let_def)
  from 1 2 3 4 5 show ?thesis unfolding renaming_ok_def by (intro conjI)
qed

lemma moved_image_files:
  assumes ok: "renaming_ok fs d (image_files fs d) (target_names (image_files fs d) pre s)"
      and e: "lookup fs_end = moved fs d (image_files fs d) (target_names (image_files fs d) pre s)
                                (length (image_files fs d))"
  shows "set (image_files fs_end d) = set (target_names (image_files fs d) pre s)"
proof -
  let ?imgs = "image_files fs d"
  let ?tgts = "target_names ?imgs pre s"
  let ?N = "length ?imgs"
  have len: "length ?tgts = ?N" by (rule length_target_names)
  have isf: "\<And>f. is_file fs_end (d @ [f])
               = (case moved fs d ?imgs ?tgts ?N (d @ [f]) of Some (File _) \<Rightarrow> True | _ \<Rightarrow> False)"
    by (simp add: is_file_def e)
  show ?thesis
  proof (intro set_eqI iffI)
    fix f assume "f \<in> set ?tgts"
    then obtain k where k: "k < ?N" and f: "f = ?tgts ! k" using len by (metis in_set_conv_nth)
    from k have ik: "?imgs ! k \<in> set ?imgs" by simp
    then obtain c where c: "lookup fs (d @ [?imgs ! k]) = Some (File c)"
      using image_file_is_file by blast
    from moved_target_holds[OF ok k] c have "moved fs d ?imgs ?tgts ?N (d @ [?tgts ! k]) = Some (File c)"
      by simp
    with f have 1: "is_file fs_end (d @ [f])" by (simp add: isf)
    from ik have sf: "suffix (?imgs ! k) \<noteq> []" by (rule image_file_suffix)
    have "suffix (?tgts ! k) = suffix (?imgs ! k)"
      unfolding target_names_nth[OF k] by (rule target_suffix[OF sf])
    with f have "suffix f = suffix (?imgs ! k)" by simp
    moreover from ik have "lower (suffix (?imgs ! k)) \<in> set image_extensions"
      by (simp add: mem_image_files)
    ultimately have "lower (suffix f) \<in> set image_extensions" by simp
    with 1 show "f \<in> set (image_files fs_end d)" by (simp add: mem_image_files)
  next
    fix f assume "f \<in> set (image_files fs_end d)"
    then have 1: "is_file fs_end (d @ [f])" and 2: "lower (suffix f) \<in> set image_extensions"
      by (simp_all add: mem_image_files)
    show "f \<in> set ?tgts"
    proof (rule ccontr)
      assume nt: "f \<notin> set ?tgts"
      show False
      proof (cases "f \<in> set ?imgs")
        case True
        then obtain k where k: "k < ?N" and f: "f = ?imgs ! k" by (metis in_set_conv_nth)
        have "\<forall>i<?N. ?tgts ! i \<noteq> ?imgs ! k"
        proof (intro allI impI)
          fix i assume "i < ?N"
          with len have "?tgts ! i \<in> set ?tgts" by simp
          with nt f show "?tgts ! i \<noteq> ?imgs ! k" by auto
        qed
        with moved_source_gone[OF ok k] have "moved fs d ?imgs ?tgts ?N (d @ [?imgs ! k]) = None"
          by simp
        with 1 f show False by (simp add: isf)
      next
        case False
        have "\<forall>k<?N. d @ [f] \<noteq> d @ [?imgs ! k] \<and> d @ [f] \<noteq> d @ [?tgts ! k]"
        proof (intro allI impI)
          fix k assume k: "k < ?N"
          then have "?imgs ! k \<in> set ?imgs" by simp
          with False have a: "f \<noteq> ?imgs ! k" by auto
          from k len have "?tgts ! k \<in> set ?tgts" by simp
          with nt have "f \<noteq> ?tgts ! k" by auto
          with a show "d @ [f] \<noteq> d @ [?imgs ! k] \<and> d @ [f] \<noteq> d @ [?tgts ! k]" by simp
        qed
        then have "moved fs d ?imgs ?tgts ?N (d @ [f]) = lookup fs (d @ [f])"
          by (rule moved_elsewhere)
        then have "lookup fs_end (d @ [f]) = lookup fs (d @ [f])" by (simp add: e)
        with 1 have "is_file fs (d @ [f])" by (simp add: is_file_def)
        with 2 have "f \<in> set ?imgs" by (simp add: mem_image_files)
        with False show False by simp
      qed
    qed
  qed
qed

text \<open>C5, as amended. For a directory with N image files, a prefix without a path
  separator, and names to be given of which none is taken by another entry of
  the directory, a run that is not a dry run returns, and afterwards the
  directory holds exactly N image files, named
  \<open><prefix>_<n padded with zeros to the digit count of start+N-1><ext>\<close> for the
  n from start to start+N-1, all different, the file under the k-th name being
  the k-th image file of the sorted listing before the run.\<close>

theorem renames_in_sorted_order:
  assumes "is_dir fs d"
      and "CHR ''/'' \<notin> set pre"
      and "free_targets fs d pre start_number"
  shows "\<exists>fs' out. rename_images fs d start_number pre False = Inr (fs', out)
                  \<and> renamed_in_order fs fs' d pre start_number
                  \<and> length (image_files fs' d) = length (image_files fs d)"
proof (cases "image_files fs d = []")
  case True
  with assms(1) have "rename_images fs d start_number pre False
                        = Inr (fs, [''No image files found in the directory.''])"
    by (simp add: rename_images_def is_dir_def)
  moreover from True have "renamed_in_order fs fs d pre start_number"
    by (simp add: renamed_in_order_def target_names_def)
  ultimately show ?thesis by blast
next
  case False
  let ?imgs = "image_files fs d"
  let ?tgts = "target_names ?imgs pre start_number"
  let ?N = "length ?imgs"
  let ?w = "length (str (start_number + int ?N - 1))"
  let ?out0 = "[''Found '' @ str (int ?N) @ '' image file(s) in '' @ [CHR 0x27]
                        @ path_text d @ [CHR 0x27]]"
  note ok = renaming_ok_image_files[OF assms(3)]
  have tg: "\<forall>k<?N. ?tgts ! k = pre @ ''_'' @ zfill ?w (str (start_number + int k)) @ suffix (?imgs ! k)"
    using target_names_nth by blast
  have "\<exists>fs_end out'.
           rename_loop d start_number pre False ?w fs 0 ?out0 (enumerate 0 (drop 0 ?imgs))
             = (fs_end, 0 + (?N - 0), out')
           \<and> lookup fs_end = moved fs d ?imgs ?tgts ?N"
    by (rule rename_loop_moved[OF ok tg]) simp_all
  then obtain fs_end out' where
    rl: "rename_loop d start_number pre False ?w fs 0 ?out0 (enumerate 0 ?imgs) = (fs_end, ?N, out')"
    and e: "lookup fs_end = moved fs d ?imgs ?tgts ?N"
    by auto
  from assms(1) False rl
  have r: "rename_images fs d start_number pre False
             = Inr (fs_end, out' @ [[CHR 0x0A] @ ''Renaming complete. Successfully renamed ''
                                  @ str (int ?N) @ '' file(s).''])"
    by (simp add: rename_images_def is_dir_def Let_def)
  from ok have dt: "distinct ?tgts" by (simp add: renaming_ok_def)
  have st: "set (image_files fs_end d) = set ?tgts" using ok e by (rule moved_image_files)
  have ct: "\<forall>k\<in>set [0..<?N]. lookup fs_end (d @ [?tgts ! k]) = lookup fs (d @ [?imgs ! k])"
  proof
    fix k assume "k \<in> set [0..<?N]"
    then have k: "k < ?N" by simp
    from moved_target_holds[OF ok k] e show "lookup fs_end (d @ [?tgts ! k]) = lookup fs (d @ [?imgs ! k])"
      by simp
  qed
  from dt st ct have ro: "renamed_in_order fs fs_end d pre start_number"
    by (simp add: renamed_in_order_def Let_def)
  have "length (image_files fs_end d) = card (set (image_files fs_end d))"
    using distinct_image_files[of fs_end d] by (simp add: distinct_card)
  also have "\<dots> = card (set ?tgts)" using st by simp
  also have "\<dots> = length ?tgts" using dt by (simp add: distinct_card)
  also have "\<dots> = ?N" by (rule length_target_names)
  finally have ln: "length (image_files fs_end d) = ?N" .
  from r ro ln show ?thesis by blast
qed

theorem renames_in_sorted_order_witness:
  "is_dir example_pics [''pics'']
   \<and> CHR ''/'' \<notin> set ''img''
   \<and> free_targets example_pics [''pics''] ''img'' 1
   \<and> image_files example_pics [''pics''] = [''a.jpg'', ''b.GIF'', ''c.png'']
   \<and> target_names (image_files example_pics [''pics'']) ''img'' 1
        = [''img_1.jpg'', ''img_2.GIF'', ''img_3.png'']
   \<and> (\<exists>fs' out. rename_images example_pics [''pics''] 1 ''img'' False = Inr (fs', out)
                  \<and> renamed_in_order example_pics fs' [''pics''] ''img'' 1
                  \<and> length (image_files fs' [''pics'']) = length (image_files example_pics [''pics'']))"
proof -
  have h1: "is_dir example_pics [''pics'']" by code_simp
  have h2: "CHR ''/'' \<notin> set ''img''" by simp
  have h3: "free_targets example_pics [''pics''] ''img'' 1" by code_simp
  have i: "image_files example_pics [''pics''] = [''a.jpg'', ''b.GIF'', ''c.png'']" by code_simp
  have t: "target_names (image_files example_pics [''pics'']) ''img'' 1
        = [''img_1.jpg'', ''img_2.GIF'', ''img_3.png'']" by code_simp
  from h1 h2 h3 i t renames_in_sorted_order[OF h1 h2 h3] show ?thesis by (intro conjI)
qed

end
